theory Spec2Isabelle
  imports Main "HOL-Library.AList"
begin

section \<open>Errors, outcomes and byte streams\<close>

text \<open>
  Go strings and byte slices are sequences of bytes: they are modelled by \<open>string\<close>,
  whose characters are the 256 byte values.

  A Go \<open>error\<close> is a value. The constructors below are the errors that \<open>main.go\<close> builds
  itself (\<open>fmt.Errorf\<close> in \<open>request\<close> and in \<open>tweak\<close>), \<open>io.EOF\<close>, and one constructor for
  every error that a library hands back.
\<close>

datatype error =
    EOF
  | StatusCodeError int
  | UnsupportedCall string
  | LibError string

text \<open>
  A call either returns to its caller, or it panics (a nil dereference, or
  \<open>regexp.MustCompile\<close> on an invalid pattern), or it ends the process (\<open>log.Fatal\<close>).
\<close>

datatype 'a outcome = Returns 'a | Panics | Exits

text \<open>
  What reading from an \<open>io.Reader\<close> yields: the bytes not read yet, and the error that
  \<open>Read\<close> reports once they are used up (\<open>io.EOF\<close> at a regular end).
\<close>

record stream =
  unread :: string
  fin :: error

text \<open>
  The \<open>io.ReadCloser\<close> values that flow through the pipeline:
  the nil interface value; a plain source (a response body, an opened zip entry) with its
  closed flag; the decoding reader made by \<open>charset.NewReaderLabel\<close>, given by what reading
  it yields (it panics when it wraps nil); and \<open>ChainedCloser{r, c}\<close>, which reads from
  \<open>r\<close> and closes \<open>c\<close>.
\<close>

datatype reader =
    NilReader
  | Source stream bool
  | TransformReader "stream outcome"
  | ChainedCloser reader reader

fun contents :: "reader \<Rightarrow> stream outcome" where
  "contents NilReader = Panics"
| "contents (Source s c) = Returns s"
| "contents (TransformReader d) = d"
| "contents (ChainedCloser r c) = contents r"

fun Close :: "reader \<Rightarrow> reader outcome" where
  "Close NilReader = Panics"
| "Close (Source s c) = Returns (Source s True)"
| "Close (TransformReader d) = Returns (TransformReader d)"
| "Close (ChainedCloser r c) =
     (case Close c of Returns c' \<Rightarrow> Returns (ChainedCloser r c') | Panics \<Rightarrow> Panics | Exits \<Rightarrow> Exits)"

section \<open>The buffered reader and the CSV record reader used by csvHeader\<close>

abbreviation LF :: char where "LF \<equiv> CHR 0x0A"
abbreviation CR :: char where "CR \<equiv> CHR 0x0D"
abbreviation QUOTE :: char where "QUOTE \<equiv> CHR 0x22"
abbreviation COMMA :: char where "COMMA \<equiv> CHR 0x2C"

definition BOM :: string where
  "BOM = [CHR 0xEF, CHR 0xBB, CHR 0xBF]"

text \<open>\<open>br.Peek(n)\<close>: the next \<open>n\<close> bytes without consuming them; fewer, with the stream's
  error, when the stream ends before.\<close>

definition Peek :: "nat \<Rightarrow> stream \<Rightarrow> string \<times> error option" where
  "Peek n br = (take n (unread br), if length (unread br) < n then Some (fin br) else None)"

definition Discard :: "nat \<Rightarrow> stream \<Rightarrow> stream" where
  "Discard n br = br\<lparr>unread := drop n (unread br)\<rparr>"

text \<open>\<open>ReadSlice('\n')\<close>: the bytes up to and including the first line feed; without a line
  feed, everything that is left together with the stream's error.\<close>

definition ReadSlice :: "stream \<Rightarrow> string \<times> error option \<times> stream" where
  "ReadSlice br =
     (if LF \<in> set (unread br)
      then (takeWhile (\<lambda>c. c \<noteq> LF) (unread br) @ [LF], None,
            br\<lparr>unread := tl (dropWhile (\<lambda>c. c \<noteq> LF) (unread br))\<rparr>)
      else (unread br, Some (fin br), br\<lparr>unread := []\<rparr>))"

text \<open>\<open>csv.Reader.readLine\<close>: a last line without line feed is not an error; a carriage
  return before the end of input is dropped; \<open>\r\n\<close> becomes \<open>\n\<close>.\<close>

definition readLine :: "stream \<Rightarrow> string \<times> error option \<times> stream" where
  "readLine br =
     (case ReadSlice br of (line0, err0, br') \<Rightarrow>
        let atEOF = (line0 \<noteq> [] \<and> err0 = Some EOF);
            err = (if atEOF then None else err0);
            line1 = (if atEOF \<and> last line0 = CR then butlast line0 else line0);
            n = length line1;
            line = (if 2 \<le> n \<and> line1 ! (n - 2) = CR \<and> line1 ! (n - 1) = LF
                    then take (n - 2) line1 @ [LF] else line1)
        in (line, err, br'))"

definition lengthNL :: "string \<Rightarrow> nat" where
  "lengthNL b = (if b \<noteq> [] \<and> last b = LF then 1 else 0)"

text \<open>\<open>bytes.IndexByte\<close>, with \<open>None\<close> for the result \<open>-1\<close>.\<close>

fun IndexByte :: "string \<Rightarrow> char \<Rightarrow> nat option" where
  "IndexByte [] c = None"
| "IndexByte (x # xs) c =
     (if x = c then Some 0 else case IndexByte xs c of None \<Rightarrow> None | Some i \<Rightarrow> Some (Suc i))"

lemma ReadSlice_length:
  "ReadSlice br = (line, err, br') \<Longrightarrow> length line + length (unread br') = length (unread br)"
proof (cases "LF \<in> set (unread br)")
  case True
  assume r: "ReadSlice br = (line, err, br')"
  let ?t = "takeWhile (\<lambda>c. c \<noteq> LF) (unread br)"
  let ?d = "dropWhile (\<lambda>c. c \<noteq> LF) (unread br)"
  from True have "?d \<noteq> []" by (simp add: dropWhile_eq_Nil_conv)
  then have "length (tl ?d) + 1 = length ?d" by (cases ?d) simp_all
  moreover have "length ?t + length ?d = length (unread br)"
    by (simp only: length_append [symmetric] takeWhile_dropWhile_id)
  moreover from r True have "line = ?t @ [LF]" "unread br' = tl ?d"
    by (auto simp: ReadSlice_def)
  ultimately show ?thesis by simp
next
  case False
  assume "ReadSlice br = (line, err, br')"
  with False show ?thesis by (auto simp: ReadSlice_def)
qed

lemma readLine_length:
  assumes "readLine br = (line, err, br')"
  shows "length line + length (unread br') \<le> length (unread br)"
proof -
  obtain line0 err0 where r: "ReadSlice br = (line0, err0, br')"
    using assms by (cases "ReadSlice br") (auto simp: readLine_def Let_def)
  have "length line \<le> length line0"
    using assms r by (auto simp: readLine_def Let_def split: if_splits)
  with ReadSlice_length [OF r] show ?thesis by simp
qed

lemma readLine_progress:
  assumes "readLine br = (line, None, br')"
  shows "length (unread br') < length (unread br)"
proof -
  obtain line0 err0 where r: "ReadSlice br = (line0, err0, br')"
    using assms by (cases "ReadSlice br") (auto simp: readLine_def Let_def)
  have "line0 \<noteq> []"
    using assms r by (auto simp: readLine_def Let_def ReadSlice_def split: if_splits)
  with ReadSlice_length [OF r] show ?thesis by (cases line0) simp_all
qed

text \<open>The first loop of \<open>csv.Reader.readRecord\<close>: read a line, skipping empty lines
  (\<open>Comment\<close> is 0 here, so no line is a comment).\<close>

function skipEmptyLines :: "stream \<Rightarrow> string \<times> error option \<times> stream" where
  "skipEmptyLines br =
     (case readLine br of (line, errRead, br') \<Rightarrow>
        if errRead = None \<and> length line = lengthNL line then skipEmptyLines br'
        else (line, errRead, br'))"
  by pat_completeness auto
termination
  by (relation "measure (\<lambda>br. length (unread br))") (auto dest: readLine_progress [OF sym])

lemma IndexByte_Some_less: "IndexByte xs c = Some i \<Longrightarrow> i < length xs"
  by (induction xs arbitrary: i) (auto split: if_splits option.splits)

lemma readLine_decreases:
  assumes "(line', err, br') = readLine br" and "line \<noteq> []"
  shows "length line' + length (unread br') < length line + length (unread br)"
proof -
  from assms(1) have "readLine br = (line', err, br')" by simp
  from readLine_length [OF this] have "length line' + length (unread br') \<le> length (unread br)" .
  with assms(2) show ?thesis by (cases line) simp_all
qed

text \<open>
  The loop \<open>parseField\<close> of \<open>readRecord\<close>, for the reader that \<open>csvHeader\<close> configures:
  \<open>Comma = ','\<close>, \<open>LazyQuotes = true\<close>, \<open>TrimLeadingSpace = false\<close>. \<open>parseField\<close> is at
  the start of a field, \<open>quotedField\<close> is the inner loop after an opening quote.
  Arguments: the rest of the current line, \<open>errRead\<close>, the buffered reader, (the bytes
  of the quoted field so far,) the fields completed so far.
  A quoted field that is cut by a read error is not added to the record.
\<close>

function parseField :: "string \<Rightarrow> error option \<Rightarrow> stream \<Rightarrow> string list
                          \<Rightarrow> string list \<times> error option \<times> stream"
  and quotedField :: "string \<Rightarrow> error option \<Rightarrow> stream \<Rightarrow> string \<Rightarrow> string list
                          \<Rightarrow> string list \<times> error option \<times> stream" where
  "parseField line errRead br fs =
     (if line = [] \<or> hd line \<noteq> QUOTE then
        (case IndexByte line COMMA of
           Some i \<Rightarrow> parseField (drop (i + 1) line) errRead br (fs @ [take i line])
         | None \<Rightarrow> (fs @ [take (length line - lengthNL line) line], errRead, br))
      else quotedField (tl line) errRead br [] fs)"
| "quotedField line errRead br buf fs =
     (case IndexByte line QUOTE of
        Some i \<Rightarrow>
          (let buf' = buf @ take i line; line' = drop (i + 1) line in
           if line' \<noteq> [] \<and> hd line' = QUOTE then
             quotedField (tl line') errRead br (buf' @ [QUOTE]) fs
           else if line' \<noteq> [] \<and> hd line' = COMMA then
             parseField (tl line') errRead br (fs @ [buf'])
           else if lengthNL line' = length line' then
             (fs @ [buf'], errRead, br)
           else
             quotedField line' errRead br (buf' @ [QUOTE]) fs)
      | None \<Rightarrow>
          if line \<noteq> [] then
            (if errRead \<noteq> None then (fs, errRead, br)
             else (case readLine br of (line', errRead', br') \<Rightarrow>
                     quotedField line' (if errRead' = Some EOF then None else errRead') br'
                       (buf @ line) fs))
          else (fs @ [buf], errRead, br))"
  by pat_completeness auto

termination
  by (relation "measure (\<lambda>x. case x of
                    Inl (line, errRead, br, fs) \<Rightarrow> length line + length (unread br)
                  | Inr (line, errRead, br, buf, fs) \<Rightarrow> length line + length (unread br))")
     (auto dest: IndexByte_Some_less intro: readLine_decreases simp: neq_Nil_conv lengthNL_def)

declare skipEmptyLines.simps [simp del] parseField.simps [simp del] quotedField.simps [simp del]

text \<open>\<open>csv.Reader.Read\<close>: the next record, the error, and the buffered reader afterwards.
  At the end of input there is no record and the error is \<open>io.EOF\<close>.\<close>

definition csvRead :: "stream \<Rightarrow> string list option \<times> error option \<times> stream" where
  "csvRead br =
     (case skipEmptyLines br of (line, errRead, br') \<Rightarrow>
        if errRead = Some EOF then (None, Some EOF, br')
        else (case parseField line errRead br' [] of (dst, err, br'') \<Rightarrow> (Some dst, err, br'')))"

section \<open>csvHeader\<close>

text \<open>
  \<open>csvHeader\<close> wraps its argument in a buffered reader \<open>br\<close>; \<open>csv.NewReader(br)\<close> reads
  through the same buffered reader (\<open>bufio.NewReader\<close> returns its argument when that is
  a buffered reader already), line by line. The result is Go's triple: header, remaining
  reader, error; \<open>None\<close> is \<open>nil\<close>. The first read of a nil reader panics.
\<close>

definition csvHeader :: "reader \<Rightarrow> (string list option \<times> stream option \<times> error option) outcome" where
  "csvHeader r =
     (case contents r of
        Panics \<Rightarrow> Panics
      | Exits \<Rightarrow> Exits
      | Returns br \<Rightarrow>
          (case Peek 3 br of (bom, err) \<Rightarrow>
             (case err of
                Some e \<Rightarrow> Returns (None, None, Some e)
              | None \<Rightarrow>
                  let br1 = (if bom ! 0 = CHR 0xEF \<and> bom ! 1 = CHR 0xBB \<and> bom ! 2 = CHR 0xBF
                             then Discard 3 br else br)
                  in (case csvRead br1 of (header, err', br2) \<Rightarrow>
                        (case err' of
                           Some e \<Rightarrow> Returns (None, None, Some e)
                         | None \<Rightarrow> Returns (header, Some br2, None))))))"

section \<open>The pipeline's data model\<close>

text \<open>
  A Go \<open>map[string]string\<close> is modelled by the list of its entries, in the order in which
  a \<open>range\<close> loop visits them (Go leaves that order open; every list order is covered).
  \<open>m[key]\<close> reads the entry of \<open>key\<close>, or the empty string when there is none;
  \<open>m[key] = v\<close> is \<open>AList.update key v m\<close>.
\<close>

type_synonym strmap = "(string \<times> string) list"

definition index :: "strmap \<Rightarrow> string \<Rightarrow> string" where
  "index m key = (case map_of m key of None \<Rightarrow> [] | Some v \<Rightarrow> v)"

record Extraction =
  Method :: string
  Url :: string
  Body :: strmap

record PreExtraction = Extraction +
  Pattern :: string

record Tweak =
  Call :: string
  Args :: strmap

record Loading =
  ProjectID :: string
  DatasetID :: string
  TableID :: string

text \<open>The anonymous struct \<open>d\<close> that \<open>handler\<close> decodes the request body into.\<close>

record document =
  dPreExtraction :: PreExtraction
  dExtraction :: Extraction
  dTweaks :: "Tweak list"
  dLoading :: Loading

section \<open>The libraries and services the program calls\<close>

text \<open>
  A compiled \<open>*regexp.Regexp\<close>, by the two methods \<open>formatMap\<close> calls:
  \<open>FindAllStringSubmatchIndex(content, -1)\<close> gives the index slices of all successive
  non-overlapping matches, leftmost first; \<open>Expand template src match\<close> is the text that
  \<open>ExpandString\<close> appends for one match.
\<close>

record regexp =
  FindAllStringSubmatchIndex :: "string \<Rightarrow> int list list"
  Expand :: "string \<Rightarrow> string \<Rightarrow> int list \<Rightarrow> string"

definition ExpandString :: "regexp \<Rightarrow> string \<Rightarrow> string \<Rightarrow> string \<Rightarrow> int list \<Rightarrow> string" where
  "ExpandString re dst template src match = dst @ Expand re template src match"

text \<open>The request handed to \<open>http.DefaultClient.Do\<close>: method, URL, the form values \<open>v\<close> whose
  encoding is the request body, and whether the \<open>Content-Type\<close> header was set.\<close>

record http_request =
  reqMethod :: string
  reqUrl :: string
  reqForm :: strmap
  reqFormContentType :: bool

text \<open>An entry \<open>*zip.File\<close> of an opened archive: its name and the result of \<open>Open()\<close>, an
  error or the stream of the entry's bytes.\<close>

record zipFile =
  fileName :: string
  fileOpen :: "error + stream"

text \<open>The load job that \<open>load\<close> starts: the destination table, the schema's column names
  (every column has type string), the reader given to \<open>NewReaderSource\<close> (\<open>None\<close> is \<open>nil\<close>) and the two options \<open>load\<close> sets.\<close>

record loadJob =
  jobProject :: string
  jobDataset :: string
  jobTable :: string
  jobSchema :: "string list"
  jobSource :: "stream option"
  jobAllowQuotedNewlines :: bool
  jobWriteTruncate :: bool

text \<open>The Unicode general categories that the pattern in \<open>load\<close> names, and all others.\<close>

datatype category = L | N | Pc | Pd | M | Other

text \<open>
  The behaviour of everything outside \<open>main.go\<close> is a parameter of the model:
  \<^item> \<open>NewRequest method url\<close>: the error of \<open>http.NewRequest\<close>, if any;
  \<^item> \<open>Do req\<close>: the error of \<open>http.DefaultClient.Do\<close>, or the response's status code and body;
  \<^item> \<open>charsetDecoder label\<close>: the error of \<open>charset.NewReaderLabel\<close>, or the decoding it applies;
  \<^item> \<open>zipNewReader b\<close>: the error of \<open>zip.NewReader\<close> on the bytes \<open>b\<close>, or the archive's entries in
    archive order;
  \<^item> \<open>regexpCompile p\<close>: the compiled pattern, \<open>None\<close> when the pattern is invalid;
  \<^item> \<open>NewClient\<close>, \<open>loaderRun\<close>, \<open>jobWait\<close>, \<open>statusErr\<close>: the errors of the BigQuery client;
  \<^item> \<open>unicodeTable\<close>: the general category of the code points from 128 on.
\<close>

record world =
  NewRequest :: "string \<Rightarrow> string \<Rightarrow> error option"
  Do :: "http_request \<Rightarrow> error + int \<times> stream"
  charsetDecoder :: "string \<Rightarrow> error + (string \<Rightarrow> string)"
  zipNewReader :: "string \<Rightarrow> error + zipFile list"
  regexpCompile :: "string \<Rightarrow> regexp option"
  NewClient :: "string \<Rightarrow> error option"
  loaderRun :: "loadJob \<Rightarrow> error option"
  jobWait :: "loadJob \<Rightarrow> error option"
  statusErr :: "loadJob \<Rightarrow> error option"
  unicodeTable :: "nat \<Rightarrow> category"

text \<open>The calls that leave the process, in the order they are made.\<close>

datatype event = HttpDo http_request | LoaderRun loadJob

section \<open>request\<close>

text \<open>The request that \<open>request\<close> builds: the form values \<open>v\<close> are filled from \<open>body\<close>, and
  the \<open>Content-Type\<close> header is set when \<open>v\<close> is not empty.\<close>

definition formRequest :: "string \<Rightarrow> string \<Rightarrow> strmap \<Rightarrow> http_request" where
  "formRequest method url body =
     (let v = fold (\<lambda>(key, value) v. AList.update key value v) body [] in
      \<lparr>reqMethod = method, reqUrl = url, reqForm = v, reqFormContentType = (length v \<noteq> 0)\<rparr>)"

text \<open>The result is Go's pair (body, error); \<open>NilReader\<close> is the \<open>nil\<close> body. The events are
  the requests sent.\<close>

definition request :: "world \<Rightarrow> string \<Rightarrow> string \<Rightarrow> strmap \<Rightarrow> (reader \<times> error option) \<times> event list" where
  "request w method url body =
     (case NewRequest w method url of
        Some err \<Rightarrow> ((NilReader, Some err), [])
      | None \<Rightarrow>
          let req = formRequest method url body in
          (case Do w req of
             Inl err \<Rightarrow> ((NilReader, Some err), [HttpDo req])
           | Inr (StatusCode, respBody) \<Rightarrow>
               if StatusCode > 299 then ((NilReader, Some (StatusCodeError StatusCode)), [HttpDo req])
               else ((Source respBody False, None), [HttpDo req])))"

section \<open>The tweaks\<close>

text \<open>
  Reading a reader to its end leaves nothing unread in it. The functions below return,
  next to Go's result pair, the state in which they leave the reader they were given.
\<close>

fun drained :: "reader \<Rightarrow> reader" where
  "drained NilReader = NilReader"
| "drained (Source s c) = Source (s\<lparr>unread := []\<rparr>) c"
| "drained (TransformReader d) =
     TransformReader (case d of Returns s \<Rightarrow> Returns (s\<lparr>unread := []\<rparr>) | Panics \<Rightarrow> Panics | Exits \<Rightarrow> Exits)"
| "drained (ChainedCloser r c) = ChainedCloser (drained r) (drained c)"

definition convert :: "world \<Rightarrow> string \<Rightarrow> reader \<Rightarrow> (reader \<times> error option) \<times> reader" where
  "convert w label r =
     (case charsetDecoder w label of
        Inl err \<Rightarrow> ((NilReader, Some err), r)
      | Inr decode \<Rightarrow>
          let nr = TransformReader
                     (case contents r of
                        Returns s \<Rightarrow> Returns (s\<lparr>unread := decode (unread s)\<rparr>)
                      | Panics \<Rightarrow> Panics
                      | Exits \<Rightarrow> Exits)
          in ((ChainedCloser nr r, None), r))"

text \<open>\<open>io.Copy\<close> reads the whole input (and panics on a nil reader); a read error other
  than \<open>io.EOF\<close> is returned before the input is closed.\<close>

definition unzip :: "world \<Rightarrow> reader \<Rightarrow> ((reader \<times> error option) \<times> reader) outcome" where
  "unzip w reader =
     (case contents reader of
        Panics \<Rightarrow> Panics
      | Exits \<Rightarrow> Exits
      | Returns s \<Rightarrow>
          if fin s \<noteq> EOF then Returns ((NilReader, Some (fin s)), drained reader)
          else (case Close (drained reader) of
                  Panics \<Rightarrow> Panics
                | Exits \<Rightarrow> Exits
                | Returns reader' \<Rightarrow>
                    (case zipNewReader w (unread s) of
                       Inl err \<Rightarrow> Returns ((NilReader, Some err), reader')
                     | Inr File \<Rightarrow>
                         if length File = 0 then Returns ((NilReader, None), reader')
                         else (case fileOpen (File ! 0) of
                                 Inl err \<Rightarrow> Returns ((NilReader, Some err), reader')
                               | Inr entry \<Rightarrow> Returns ((Source entry False, None), reader')))))"

definition tweak :: "world \<Rightarrow> Tweak \<Rightarrow> reader \<Rightarrow> ((reader \<times> error option) \<times> reader) outcome" where
  "tweak w t reader =
     (let res =
        (if Call t = ''unzip'' then
           (case unzip w reader of
              Returns ((nextReader, err), reader') \<Rightarrow> Inr ((nextReader, err), reader')
            | Panics \<Rightarrow> Inl Panics
            | Exits \<Rightarrow> Inl Exits)
         else if Call t = ''convert'' then
           Inr (convert w (index (Args t) ''charset'') reader)
         else Inl (Returns ((NilReader, Some (UnsupportedCall (Call t))), reader)))
      in case res of
           Inl out \<Rightarrow> out
         | Inr ((nextReader, err), reader') \<Rightarrow>
             if err \<noteq> None then Returns ((NilReader, err), reader')
             else Returns ((nextReader, None), reader'))"

text \<open>The loop over \<open>d.Tweaks\<close> in \<open>handler\<close>: the first error ends it.\<close>

fun tweakAll :: "world \<Rightarrow> Tweak list \<Rightarrow> reader \<Rightarrow> (reader \<times> error option) outcome" where
  "tweakAll w [] reader = Returns (reader, None)"
| "tweakAll w (t # ts) reader =
     (case tweak w t reader of
        Panics \<Rightarrow> Panics
      | Exits \<Rightarrow> Exits
      | Returns ((reader', err), _) \<Rightarrow>
          if err \<noteq> None then Returns (reader', err) else tweakAll w ts reader')"

section \<open>formatMap and preExtract\<close>

definition formatMap :: "strmap \<Rightarrow> regexp \<Rightarrow> string \<Rightarrow> strmap" where
  "formatMap templates pattern content =
     (let matches = FindAllStringSubmatchIndex pattern content in
      fold (\<lambda>key m.
              let template = index templates key;
                  result = fold (\<lambda>submatches result.
                                   ExpandString pattern result template content submatches)
                             matches []
              in AList.update key result m)
        (map fst templates) [])"

text \<open>\<open>io.ReadAll\<close>: all bytes, or the read error.\<close>

definition ReadAll :: "reader \<Rightarrow> (string \<times> error option) outcome" where
  "ReadAll r =
     (case contents r of
        Panics \<Rightarrow> Panics
      | Exits \<Rightarrow> Exits
      | Returns s \<Rightarrow> Returns (unread s, if fin s = EOF then None else Some (fin s)))"

definition preExtract :: "world \<Rightarrow> PreExtraction \<Rightarrow> Extraction
                            \<Rightarrow> (Extraction \<times> error option) outcome \<times> event list" where
  "preExtract w p e =
     (if Method p = [] \<and> Url p = [] then (Returns (e, None), [])
      else
        (case request w (Method p) (Url p) (Body p) of
           ((reader, err), evs) \<Rightarrow>
             if err \<noteq> None then (Returns (e, err), evs)
             else
               (case ReadAll reader of
                  Panics \<Rightarrow> (Panics, evs)
                | Exits \<Rightarrow> (Exits, evs)
                | Returns (b, err') \<Rightarrow>
                    if err' \<noteq> None then (Exits, evs)
                    else
                      (case regexpCompile w (Pattern p) of
                         None \<Rightarrow> (Panics, evs)
                       | Some pattern \<Rightarrow>
                           (Returns (\<lparr>Method = Method e, Url = Url e,
                                      Body = formatMap (Body e) pattern b\<rparr>, None), evs)))))"

section \<open>load\<close>

text \<open>
  \<open>utf8.DecodeRuneInString\<close>, which the regular expression engine uses to step through a
  string: the code point at the start of \<open>s\<close> and the number of bytes it takes. A byte
  sequence that is not valid UTF-8 gives \<open>RuneError\<close> and width 1.
\<close>

definition RuneError :: nat where
  "RuneError = 0xFFFD"

definition DecodeRuneInString :: "string \<Rightarrow> nat \<times> nat" where
  "DecodeRuneInString s =
     (case s of
        [] \<Rightarrow> (RuneError, 0)
      | c0 # rest \<Rightarrow>
          let s0 = (of_char c0 :: nat) in
          if s0 < 0x80 then (s0, 1)
          else if s0 < 0xC2 \<or> 0xF4 < s0 then (RuneError, 1)
          else
            let sz = (if s0 < 0xE0 then 2 else if s0 < 0xF0 then 3 else 4 :: nat);
                lo = (if s0 = 0xE0 then 0xA0 else if s0 = 0xF0 then 0x90 else 0x80 :: nat);
                hi = (if s0 = 0xED then 0x9F else if s0 = 0xF4 then 0x8F else 0xBF :: nat)
            in
            if length s < sz then (RuneError, 1)
            else
              let s1 = (of_char (s ! 1) :: nat) in
              if s1 < lo \<or> hi < s1 then (RuneError, 1)
              else if sz \<le> 2 then (s0 mod 0x20 * 0x40 + s1 mod 0x40, 2)
              else
                let s2 = (of_char (s ! 2) :: nat) in
                if s2 < 0x80 \<or> 0xBF < s2 then (RuneError, 1)
                else if sz \<le> 3 then (s0 mod 0x10 * 0x1000 + s1 mod 0x40 * 0x40 + s2 mod 0x40, 3)
                else
                  let s3 = (of_char (s ! 3) :: nat) in
                  if s3 < 0x80 \<or> 0xBF < s3 then (RuneError, 1)
                  else (s0 mod 8 * 0x40000 + s1 mod 0x40 * 0x1000 + s2 mod 0x40 * 0x40
                          + s3 mod 0x40, 4))"

text \<open>The general categories of the code points below 128: the letters, the digits, the
  low line (connector punctuation) and the hyphen-minus (dash punctuation).\<close>

definition asciiCategory :: "nat \<Rightarrow> category" where
  "asciiCategory r =
     (if (0x41 \<le> r \<and> r \<le> 0x5A) \<or> (0x61 \<le> r \<and> r \<le> 0x7A) then L
      else if 0x30 \<le> r \<and> r \<le> 0x39 then N
      else if r = 0x5F then Pc
      else if r = 0x2D then Pd
      else Other)"

definition generalCategory :: "world \<Rightarrow> nat \<Rightarrow> category" where
  "generalCategory w r = (if r < 0x80 then asciiCategory r else unicodeTable w r)"

text \<open>The character class \<open>[^\p{L}\p{N}\p{Pc}\p{Pd}\p{M}&%=+:'<>#|]\<close>.\<close>

definition invalidCharacters :: "world \<Rightarrow> nat \<Rightarrow> bool" where
  "invalidCharacters w r =
     (\<not> (generalCategory w r = L \<or> generalCategory w r = N \<or> generalCategory w r = Pc
         \<or> generalCategory w r = Pd \<or> generalCategory w r = M
         \<or> r = 0x26 \<or> r = 0x25 \<or> r = 0x3D \<or> r = 0x2B \<or> r = 0x3A \<or> r = 0x27
         \<or> r = 0x3C \<or> r = 0x3E \<or> r = 0x23 \<or> r = 0x7C))"

lemma DecodeRuneInString_size:
  "s \<noteq> [] \<Longrightarrow> DecodeRuneInString s = (r, n) \<Longrightarrow> 0 < n"
  by (cases s) (auto simp: DecodeRuneInString_def Let_def split: if_splits)

lemma DecodeRuneInString_decreases:
  assumes "src \<noteq> []" and "(r, n) = DecodeRuneInString src"
  shows "length src - n < length src"
proof -
  from assms have "0 < n" by (auto dest: DecodeRuneInString_size [OF _ sym])
  with assms(1) show ?thesis by (cases src) simp_all
qed

text \<open>\<open>invalidCharacters.ReplaceAllString(src, repl)\<close>: every code point of the class is
  replaced by \<open>repl\<close>, all other bytes are copied.\<close>

function ReplaceAllString :: "world \<Rightarrow> string \<Rightarrow> string \<Rightarrow> string" where
  "ReplaceAllString w src repl =
     (if src = [] then []
      else (case DecodeRuneInString src of (r, n) \<Rightarrow>
              (if invalidCharacters w r then repl else take n src)
                @ ReplaceAllString w (drop n src) repl))"
  by pat_completeness auto
termination
  by (relation "measure (\<lambda>(w, src, repl). length src)")
     (auto intro: DecodeRuneInString_decreases)

declare ReplaceAllString.simps [simp del]

text \<open>
  \<open>load\<close>: the deferred \<open>r.Close()\<close> runs when \<open>load\<close> returns. The events are the load jobs
  started.
\<close>

definition load :: "world \<Rightarrow> string \<Rightarrow> string \<Rightarrow> string \<Rightarrow> reader
                      \<Rightarrow> error option outcome \<times> event list" where
  "load w projectID datasetID tableID r =
     (case csvHeader r of
        Panics \<Rightarrow> (Panics, [])
      | Exits \<Rightarrow> (Exits, [])
      | Returns (header, br, err) \<Rightarrow>
          (case (if err \<noteq> None then (err, [])
                 else (case NewClient w projectID of
                         Some e \<Rightarrow> (Some e, [])
                       | None \<Rightarrow>
                           let schema = map (\<lambda>v. ReplaceAllString w v ''_'')
                                          (case header of None \<Rightarrow> [] | Some h \<Rightarrow> h);
                               job = \<lparr>jobProject = projectID, jobDataset = datasetID,
                                      jobTable = tableID, jobSchema = schema, jobSource = br,
                                      jobAllowQuotedNewlines = True, jobWriteTruncate = True\<rparr>
                           in (case loaderRun w job of
                                 Some e \<Rightarrow> (Some e, [LoaderRun job])
                               | None \<Rightarrow>
                                   (case jobWait w job of
                                      Some e \<Rightarrow> (Some e, [LoaderRun job])
                                    | None \<Rightarrow> (statusErr w job, [LoaderRun job])))))
           of (res, evs) \<Rightarrow>
             (case Close r of
                Panics \<Rightarrow> (Panics, evs)
              | Exits \<Rightarrow> (Exits, evs)
              | Returns _ \<Rightarrow> (Returns res, evs))))"

section \<open>handler\<close>

text \<open>
  \<open>handler\<close> on the result of decoding the request body. The value returned is the status
  code written: 500 (\<open>http.StatusInternalServerError\<close>) or 200 (\<open>http.StatusOK\<close>).
\<close>

definition handler :: "world \<Rightarrow> error + document \<Rightarrow> nat outcome \<times> event list" where
  "handler w decoded =
     (case decoded of
        Inl err \<Rightarrow> (Returns 500, [])
      | Inr d \<Rightarrow>
          (case preExtract w (dPreExtraction d) (dExtraction d) of
             (Panics, evs1) \<Rightarrow> (Panics, evs1)
           | (Exits, evs1) \<Rightarrow> (Exits, evs1)
           | (Returns (e, err1), evs1) \<Rightarrow>
               if err1 \<noteq> None then (Returns 500, evs1)
               else
                 (case request w (Method e) (Url e) (Body e) of
                    ((reader, err2), evs2) \<Rightarrow>
                      if err2 \<noteq> None then (Returns 500, evs1 @ evs2)
                      else
                        (case tweakAll w (dTweaks d) reader of
                           Panics \<Rightarrow> (Panics, evs1 @ evs2)
                         | Exits \<Rightarrow> (Exits, evs1 @ evs2)
                         | Returns (reader', err3) \<Rightarrow>
                             if err3 \<noteq> None then (Returns 500, evs1 @ evs2)
                             else
                               (case load w (ProjectID (dLoading d)) (DatasetID (dLoading d))
                                       (TableID (dLoading d)) reader' of
                                  (Panics, evs3) \<Rightarrow> (Panics, evs1 @ evs2 @ evs3)
                                | (Exits, evs3) \<Rightarrow> (Exits, evs1 @ evs2 @ evs3)
                                | (Returns err4, evs3) \<Rightarrow>
                                    if err4 \<noteq> None then (Returns 500, evs1 @ evs2 @ evs3)
                                    else (Returns 200, evs1 @ evs2 @ evs3))))))"

section \<open>Notions used to state the properties\<close>

text \<open>
  A record of CSV text: its fields as they are written, separated by commas. A value is
  plain, and can be written without quotes, when it has no comma, quote, carriage return
  or line feed.
\<close>

fun joinFields :: "string list \<Rightarrow> string" where
  "joinFields [] = []"
| "joinFields [f] = f"
| "joinFields (f # g # fs) = f @ [COMMA] @ joinFields (g # fs)"

definition plainField :: "string \<Rightarrow> bool" where
  "plainField f = (COMMA \<notin> set f \<and> QUOTE \<notin> set f \<and> CR \<notin> set f \<and> LF \<notin> set f)"

text \<open>
  A field of a record as it is written in CSV text: unquoted, or enclosed in quotes with
  every quote of the value doubled. A cell is a value with the way it is written
  (\<open>True\<close>: quoted). An unquoted value has no comma, quote, carriage return or line feed; a
  quoted value is any text without carriage return. A blank line is a line end alone.
\<close>

fun escapeQuotes :: "string \<Rightarrow> string" where
  "escapeQuotes [] = []"
| "escapeQuotes (c # cs) = (if c = QUOTE then [QUOTE, QUOTE] else [c]) @ escapeQuotes cs"

definition renderField :: "bool \<times> string \<Rightarrow> string" where
  "renderField cell = (if fst cell then [QUOTE] @ escapeQuotes (snd cell) @ [QUOTE] else snd cell)"

definition wellFormedField :: "bool \<times> string \<Rightarrow> bool" where
  "wellFormedField cell = (if fst cell then CR \<notin> set (snd cell) else plainField (snd cell))"

definition blankLine :: "string \<Rightarrow> bool" where
  "blankLine b = (b = [LF] \<or> b = [CR, LF])"

text \<open>
  For a text \<open>t\<close> followed by a line end \<open>eol\<close> and further content \<open>rest\<close>: the first line of
  \<open>t\<close> as the CSV reader takes it (with a line feed at its end), and what is then left in
  the reader.
\<close>

fun firstLine :: "string \<Rightarrow> string" where
  "firstLine [] = [LF]"
| "firstLine (c # t) = (if c = LF then [LF] else c # firstLine t)"

fun afterFirst :: "string \<Rightarrow> string \<Rightarrow> string \<Rightarrow> string" where
  "afterFirst eol rest [] = rest"
| "afterFirst eol rest (c # t) = (if c = LF then t @ eol @ rest else afterFirst eol rest t)"

text \<open>\<open>src[match[0]:match[1]]\<close>, the text of a whole match.\<close>

definition wholeMatch :: "string \<Rightarrow> int list \<Rightarrow> string" where
  "wholeMatch src match = take (nat (match ! 1 - match ! 0)) (drop (nat (match ! 0)) src)"

text \<open>
  A name is a sequence of characters (code points) in UTF-8: \<open>EncodeRune\<close> is the UTF-8
  encoding of a code point, of one to four bytes; the code points are those up to
  U+10FFFF without the surrogates.
\<close>

definition validRune :: "nat \<Rightarrow> bool" where
  "validRune r = (r < 0xD800 \<or> (0xE000 \<le> r \<and> r \<le> 0x10FFFF))"

definition EncodeRune :: "nat \<Rightarrow> string" where
  "EncodeRune r =
     (if r < 0x80 then [char_of r]
      else if r < 0x800 then [char_of (0xC0 + r div 0x40), char_of (0x80 + r mod 0x40)]
      else if r < 0x10000 then
        [char_of (0xE0 + r div 0x1000), char_of (0x80 + r div 0x40 mod 0x40),
         char_of (0x80 + r mod 0x40)]
      else
        [char_of (0xF0 + r div 0x40000), char_of (0x80 + r div 0x1000 mod 0x40),
         char_of (0x80 + r div 0x40 mod 0x40), char_of (0x80 + r mod 0x40)])"

text \<open>
  The characters that the specification lets stand in a column name: letters, numbers,
  connector and dash punctuation, marks, and the characters \<open>& % = + : ' < > # |\<close>. Below
  128 the letters are A to Z and a to z, the numbers are 0 to 9, the connector punctuation
  is the low line and the dash punctuation is the hyphen-minus; from 128 on the general
  category is the one of the Unicode table.
\<close>

definition allowedCharacter :: "world \<Rightarrow> nat \<Rightarrow> bool" where
  "allowedCharacter w r =
     (if r < 128 then
        (of_char (CHR ''A'') \<le> r \<and> r \<le> of_char (CHR ''Z''))
        \<or> (of_char (CHR ''a'') \<le> r \<and> r \<le> of_char (CHR ''z''))
        \<or> (of_char (CHR ''0'') \<le> r \<and> r \<le> of_char (CHR ''9''))
        \<or> r = of_char (CHR ''_'') \<or> r = of_char (CHR ''-'')
        \<or> r \<in> of_char ` set (''&%=+:<>#|'' @ [CHR 0x27])
      else unicodeTable w r \<in> {L, N, Pc, Pd, M})"

section \<open>Worlds for concrete runs\<close>

text \<open>
  \<open>offline\<close>: requests can be built, but nothing outside answers: the transport fails, no
  charset, archive or pattern is accepted, of the warehouse no client can be made.
  \<open>respond code b w\<close> is \<open>w\<close> with a transport that answers every request with status
  \<open>code\<close> and body \<open>b\<close>.
\<close>

definition offline :: world where
  "offline =
     \<lparr>NewRequest = (\<lambda>method url. None),
      Do = (\<lambda>req. Inl (LibError ''connection refused'')),
      charsetDecoder = (\<lambda>label. Inl (LibError ''unsupported charset'')),
      zipNewReader = (\<lambda>b. Inl (LibError ''zip: not a valid zip file'')),
      regexpCompile = (\<lambda>p. None),
      NewClient = (\<lambda>projectID. Some (LibError ''bigquery.NewClient'')),
      loaderRun = (\<lambda>job. Some (LibError ''loader.Run'')),
      jobWait = (\<lambda>job. None),
      statusErr = (\<lambda>job. None),
      unicodeTable = (\<lambda>r. Other)\<rparr>"

definition respond :: "int \<Rightarrow> string \<Rightarrow> world \<Rightarrow> world" where
  "respond code b w = w\<lparr>Do := (\<lambda>req. Inr (code, \<lparr>unread = b, fin = EOF\<rparr>))\<rparr>"

text \<open>The archive without entries: the 22 bytes of an end-of-central-directory record.
  \<open>withArchive b File w\<close> is \<open>w\<close> with a \<open>zip.NewReader\<close> that reads the bytes \<open>b\<close> as the
  archive with the entries \<open>File\<close>.\<close>

definition emptyArchive :: string where
  "emptyArchive = [CHR 0x50, CHR 0x4B, CHR 0x05, CHR 0x06] @ replicate 18 (CHR 0x00)"

definition withArchive :: "string \<Rightarrow> zipFile list \<Rightarrow> world \<Rightarrow> world" where
  "withArchive b File w = w\<lparr>zipNewReader := (\<lambda>x. if x = b then Inr File else zipNewReader w x)\<rparr>"

text \<open>\<open>warehouse w\<close> is \<open>w\<close> with a warehouse that accepts every load job.\<close>

definition warehouse :: "world \<Rightarrow> world" where
  "warehouse w = w\<lparr>NewClient := (\<lambda>projectID. None), loaderRun := (\<lambda>job. None)\<rparr>"

section \<open>Properties\<close>

subsection \<open>Events and the tweak loop\<close>

lemma request_events: "ev \<in> set (snd (request w method url body)) \<Longrightarrow> \<exists>req. ev = HttpDo req"
  by (auto simp: request_def Let_def split: option.splits sum.splits prod.splits if_splits)

lemma preExtract_events_request:
  "snd (preExtract w p e) = [] \<or> snd (preExtract w p e) = snd (request w (Method p) (Url p) (Body p))"
  by (auto simp: preExtract_def split: option.splits prod.splits outcome.splits)

lemma preExtract_events: "ev \<in> set (snd (preExtract w p e)) \<Longrightarrow> \<exists>req. ev = HttpDo req"
  using preExtract_events_request [of w p e] request_events [of ev w "Method p" "Url p" "Body p"]
  by auto

lemma request_no_load: "request w m u b = (res, evs) \<Longrightarrow> LoaderRun job \<in> set evs \<Longrightarrow> False"
  using request_events [of "LoaderRun job" w m u b] by auto

lemma preExtract_no_load: "preExtract w p e = (res, evs) \<Longrightarrow> LoaderRun job \<in> set evs \<Longrightarrow> False"
  using preExtract_events [of "LoaderRun job" w p e] by auto

lemma tweak_default:
  "Call t \<noteq> ''unzip'' \<Longrightarrow> Call t \<noteq> ''convert'' \<Longrightarrow>
   tweak w t reader = Returns ((NilReader, Some (UnsupportedCall (Call t))), reader)"
  by (simp add: tweak_def)

lemma tweakAll_default:
  "t \<in> set ts \<Longrightarrow> Call t \<noteq> ''unzip'' \<Longrightarrow> Call t \<noteq> ''convert'' \<Longrightarrow>
   tweakAll w ts reader = Returns (reader', err) \<Longrightarrow> err \<noteq> None"
proof (induction ts arbitrary: reader)
  case Nil
  then show ?case by simp
next
  case (Cons a ts)
  show ?case
  proof (cases "a = t")
    case True
    with Cons.prems show ?thesis by (auto simp: tweak_default)
  next
    case False
    with Cons.prems have "t \<in> set ts" by simp
    with Cons show ?thesis
      by (auto split: outcome.splits prod.splits if_splits)
  qed
qed

subsection \<open>Reading a line of plain fields\<close>

lemma IndexByte_None: "c \<notin> set xs \<Longrightarrow> IndexByte xs c = None"
  by (induction xs) auto

lemma IndexByte_first: "c \<notin> set xs \<Longrightarrow> IndexByte (xs @ c # ys) c = Some (length xs)"
  by (induction xs) auto

lemma hd_plain: "plainField f \<Longrightarrow> c \<noteq> QUOTE \<Longrightarrow> hd (f @ c # ys) \<noteq> QUOTE"
  by (cases f) (auto simp: plainField_def)

lemma ReadSlice_line:
  assumes "LF \<notin> set l"
  shows "ReadSlice \<lparr>unread = l @ LF # rest, fin = e\<rparr> = (l @ [LF], None, \<lparr>unread = rest, fin = e\<rparr>)"
proof -
  have "takeWhile (\<lambda>c. c \<noteq> LF) (l @ LF # rest) = l"
    using assms by (induction l) auto
  moreover have "dropWhile (\<lambda>c. c \<noteq> LF) (l @ LF # rest) = LF # rest"
    using assms by (induction l) auto
  ultimately show ?thesis by (simp add: ReadSlice_def)
qed

lemma readLine_line:
  assumes "LF \<notin> set l" and "CR \<notin> set l" and "eol = [LF] \<or> eol = [CR, LF]"
  shows "readLine \<lparr>unread = l @ eol @ rest, fin = e\<rparr> = (l @ [LF], None, \<lparr>unread = rest, fin = e\<rparr>)"
  using assms(3)
proof
  assume eol: "eol = [LF]"
  have "l \<noteq> [] \<Longrightarrow> (l @ [LF]) ! (length l - Suc 0) \<noteq> CR"
    using assms(2) by (cases l rule: rev_cases) (auto simp: nth_append)
  then show ?thesis
    using ReadSlice_line [OF assms(1), of rest e] eol
    by (cases l) (auto simp: readLine_def Let_def)
next
  assume eol: "eol = [CR, LF]"
  have "LF \<notin> set (l @ [CR])" using assms(1) by simp
  from ReadSlice_line [OF this, of rest e] eol show ?thesis
    by (simp add: readLine_def Let_def nth_append)
qed

subsection \<open>Reading a record of quoted and unquoted fields\<close>

lemma firstLine_not_Nil: "firstLine t \<noteq> []"
  by (cases t) auto

lemma firstLine_append:
  "LF \<notin> set l \<Longrightarrow> firstLine (l @ t) = l @ firstLine t"
  by (induction l) auto

lemma afterFirst_append:
  "LF \<notin> set l \<Longrightarrow> afterFirst eol rest (l @ t) = afterFirst eol rest t"
  by (induction l) auto

lemma readLine_first:
  assumes "CR \<notin> set t" and eol: "eol = [LF] \<or> eol = [CR, LF]"
  shows "readLine \<lparr>unread = t @ eol @ rest, fin = e\<rparr>
         = (firstLine t, None, \<lparr>unread = afterFirst eol rest t, fin = e\<rparr>)"
proof (cases "LF \<in> set t")
  case False
  with firstLine_append [of t "[]"] afterFirst_append [of t eol rest "[]"]
  have "firstLine t = t @ [LF]" "afterFirst eol rest t = rest" by simp_all
  with readLine_line [OF False assms(1) eol, of rest e] show ?thesis by simp
next
  case True
  then obtain l t' where t: "t = l @ LF # t'" "LF \<notin> set l" by (auto dest: split_list_first)
  with assms(1) have "CR \<notin> set l" by simp
  from readLine_line [OF t(2) this, of "[LF]" "t' @ eol @ rest" e]
  have "readLine \<lparr>unread = t @ eol @ rest, fin = e\<rparr>
        = (l @ [LF], None, \<lparr>unread = t' @ eol @ rest, fin = e\<rparr>)"
    using t(1) by simp
  moreover from firstLine_append [OF t(2), of "LF # t'"] afterFirst_append [OF t(2), of eol rest "LF # t'"]
  have "firstLine t = l @ [LF]" "afterFirst eol rest t = t' @ eol @ rest" using t(1) by simp_all
  ultimately show ?thesis by simp
qed

lemma quotedField_shift:
  assumes "c \<noteq> QUOTE" and "ln \<noteq> []"
  shows "quotedField (c # ln) errRead br buf fs = quotedField ln errRead br (buf @ [c]) fs"
proof (cases "IndexByte ln QUOTE")
  case None
  with assms show ?thesis
    by (simp add: quotedField.simps [of "c # ln"] quotedField.simps [of ln errRead br "buf @ [c]"])
next
  case (Some i)
  with assms show ?thesis
    by (simp add: quotedField.simps [of "c # ln"] quotedField.simps [of ln errRead br "buf @ [c]"])
qed

lemma quoted_value:
  assumes eol: "eol = [LF] \<or> eol = [CR, LF]" and K: "K = [] \<or> hd K = COMMA" and crK: "CR \<notin> set K"
  shows "CR \<notin> set v \<Longrightarrow>
         quotedField (firstLine (escapeQuotes v @ QUOTE # K)) None
           \<lparr>unread = afterFirst eol rest (escapeQuotes v @ QUOTE # K), fin = e\<rparr> buf fs
         = (if K = [] then (fs @ [buf @ v], None, \<lparr>unread = rest, fin = e\<rparr>)
            else parseField (firstLine (tl K)) None
                   \<lparr>unread = afterFirst eol rest (tl K), fin = e\<rparr> (fs @ [buf @ v]))"
proof (induction v arbitrary: buf)
  case Nil
  show ?case
  proof (cases K)
    case Nil
    then show ?thesis
      by (simp add: quotedField.simps [of "[QUOTE, LF]"] lengthNL_def)
  next
    case (Cons k K')
    with K have "k = COMMA" by simp
    with Cons show ?thesis
      by (simp add: quotedField.simps [of "QUOTE # COMMA # firstLine K'"])
  qed
next
  case (Cons c v)
  let ?T = "escapeQuotes v @ QUOTE # K"
  from Cons.prems have cr: "CR \<notin> set v" "c \<noteq> CR" by auto
  have crT: "CR \<notin> set ?T" using cr(1) crK by (induction v) auto
  consider "c = QUOTE" | "c = LF" | "c \<noteq> QUOTE" "c \<noteq> LF" by blast
  then show ?case
  proof cases
    case 1
    have "quotedField (QUOTE # QUOTE # firstLine ?T) None
            \<lparr>unread = afterFirst eol rest ?T, fin = e\<rparr> buf fs
          = quotedField (firstLine ?T) None
            \<lparr>unread = afterFirst eol rest ?T, fin = e\<rparr> (buf @ [QUOTE]) fs"
      by (simp add: quotedField.simps [of "QUOTE # QUOTE # firstLine ?T"])
    with Cons.IH [OF cr(1), of "buf @ [QUOTE]"] 1 show ?thesis by simp
  next
    case 2
    from readLine_first [OF crT eol, of rest e]
    have rl: "readLine \<lparr>unread = escapeQuotes v @ QUOTE # K @ eol @ rest, fin = e\<rparr>
              = (firstLine ?T, None, \<lparr>unread = afterFirst eol rest ?T, fin = e\<rparr>)"
      by simp
    have "quotedField [LF] None \<lparr>unread = ?T @ eol @ rest, fin = e\<rparr> buf fs
          = quotedField (firstLine ?T) None
            \<lparr>unread = afterFirst eol rest ?T, fin = e\<rparr> (buf @ [LF]) fs"
      by (simp add: quotedField.simps [of "[LF]"] rl)
    with Cons.IH [OF cr(1), of "buf @ [LF]"] 2 show ?thesis by simp
  next
    case 3
    from quotedField_shift [OF 3(1) firstLine_not_Nil, of ?T]
    have "quotedField (c # firstLine ?T) None
            \<lparr>unread = afterFirst eol rest ?T, fin = e\<rparr> buf fs
          = quotedField (firstLine ?T) None
            \<lparr>unread = afterFirst eol rest ?T, fin = e\<rparr> (buf @ [c]) fs" .
    with Cons.IH [OF cr(1), of "buf @ [c]"] 3 show ?thesis by simp
  qed
qed

lemma plain_value:
  assumes "plainField f" and K: "K = [] \<or> hd K = COMMA"
  shows "parseField (firstLine (f @ K)) None \<lparr>unread = afterFirst eol rest (f @ K), fin = e\<rparr> fs
         = (if K = [] then (fs @ [f], None, \<lparr>unread = rest, fin = e\<rparr>)
            else parseField (firstLine (tl K)) None
                   \<lparr>unread = afterFirst eol rest (tl K), fin = e\<rparr> (fs @ [f]))"
proof -
  from assms(1) have lf: "LF \<notin> set f" by (simp add: plainField_def)
  note fl = firstLine_append [OF lf] afterFirst_append [OF lf]
  show ?thesis
  proof (cases K)
    case Nil
    from assms(1) have "IndexByte (f @ [LF]) COMMA = None"
      by (intro IndexByte_None) (simp add: plainField_def)
    moreover have "hd (f @ [LF]) \<noteq> QUOTE" using assms(1) by (intro hd_plain) simp_all
    moreover have "firstLine f = f @ [LF]" "afterFirst eol rest f = rest"
      using fl(1) [of "[]"] fl(2) [of eol rest "[]"] by simp_all
    ultimately show ?thesis
      using Nil by (simp add: parseField.simps [of "f @ [LF]"] lengthNL_def)
  next
    case (Cons k K')
    with K have k: "k = COMMA" by simp
    let ?l = "f @ COMMA # firstLine K'"
    have "IndexByte ?l COMMA = Some (length f)"
      using assms(1) by (intro IndexByte_first) (simp add: plainField_def)
    moreover have "hd ?l \<noteq> QUOTE" using assms(1) by (intro hd_plain) simp_all
    ultimately show ?thesis
      using Cons k by (simp add: fl parseField.simps [of ?l])
  qed
qed

lemma escapeQuotes_CR: "CR \<notin> set v \<Longrightarrow> CR \<notin> set (escapeQuotes v)"
  by (induction v) auto

lemma renderField_CR: "wellFormedField cell \<Longrightarrow> CR \<notin> set (renderField cell)"
  by (auto simp: wellFormedField_def renderField_def plainField_def escapeQuotes_CR split: if_splits)

lemma cell_value:
  assumes "wellFormedField cell" and eol: "eol = [LF] \<or> eol = [CR, LF]"
    and K: "K = [] \<or> hd K = COMMA" and crK: "CR \<notin> set K"
  shows "parseField (firstLine (renderField cell @ K)) None
           \<lparr>unread = afterFirst eol rest (renderField cell @ K), fin = e\<rparr> fs
         = (if K = [] then (fs @ [snd cell], None, \<lparr>unread = rest, fin = e\<rparr>)
            else parseField (firstLine (tl K)) None
                   \<lparr>unread = afterFirst eol rest (tl K), fin = e\<rparr> (fs @ [snd cell]))"
proof (cases "fst cell")
  case False
  with assms(1) have "plainField (snd cell)" by (simp add: wellFormedField_def)
  from plain_value [OF this K, of eol rest e fs] False show ?thesis
    by (simp add: renderField_def)
next
  case True
  with assms(1) have cr: "CR \<notin> set (snd cell)" by (simp add: wellFormedField_def)
  let ?T = "escapeQuotes (snd cell) @ QUOTE # K"
  have "parseField (QUOTE # firstLine ?T) None \<lparr>unread = afterFirst eol rest ?T, fin = e\<rparr> fs
        = quotedField (firstLine ?T) None \<lparr>unread = afterFirst eol rest ?T, fin = e\<rparr> [] fs"
    by (simp add: parseField.simps [of "QUOTE # firstLine ?T"])
  with quoted_value [OF eol K crK cr, of rest e "[]" fs] True show ?thesis
    by (simp add: renderField_def)
qed

lemma joinFields_Cons:
  "xs \<noteq> [] \<Longrightarrow> joinFields (x # xs) = x @ COMMA # joinFields xs"
  by (cases xs) simp_all

lemma renderLine_CR:
  "list_all wellFormedField cells \<Longrightarrow> CR \<notin> set (joinFields (map renderField cells))"
proof (induction cells)
  case Nil
  then show ?case by simp
next
  case (Cons c cs)
  then show ?case
    by (cases cs) (simp_all add: renderField_CR)
qed

lemma parse_cells:
  assumes eol: "eol = [LF] \<or> eol = [CR, LF]"
  shows "cells \<noteq> [] \<Longrightarrow> list_all wellFormedField cells \<Longrightarrow>
         parseField (firstLine (joinFields (map renderField cells))) None
           \<lparr>unread = afterFirst eol rest (joinFields (map renderField cells)), fin = e\<rparr> fs
         = (fs @ map snd cells, None, \<lparr>unread = rest, fin = e\<rparr>)"
proof (induction cells arbitrary: fs)
  case Nil
  then show ?case by simp
next
  case (Cons c cs)
  then have c: "wellFormedField c" and cs: "list_all wellFormedField cs" by simp_all
  show ?case
  proof (cases "cs = []")
    case True
    from cell_value [OF c eol, of "[]" rest e fs] True show ?thesis by simp
  next
    case False
    let ?J = "joinFields (map renderField cs)"
    from False have j: "joinFields (map renderField (c # cs)) = renderField c @ COMMA # ?J"
      by (simp add: joinFields_Cons)
    have "CR \<notin> set (COMMA # ?J)" using renderLine_CR [OF cs] by simp
    from cell_value [OF c eol _ this, of rest e fs] Cons.IH [OF False cs, of "fs @ [snd c]"]
    show ?thesis unfolding j by simp
  qed
qed

lemma last_firstLine: "last (firstLine t) = LF"
  by (induction t) (auto simp: firstLine_not_Nil)

lemma firstLine_not_blank:
  assumes "t \<noteq> []" and "hd t \<noteq> LF"
  shows "length (firstLine t) \<noteq> lengthNL (firstLine t)"
proof -
  from assms obtain c t' where "t = c # t'" "c \<noteq> LF" by (cases t) auto
  then have "length (firstLine t) = Suc (length (firstLine t'))" by simp
  moreover have "0 < length (firstLine t')" using firstLine_not_Nil [of t'] by simp
  moreover have "lengthNL (firstLine t) \<le> 1" by (simp add: lengthNL_def)
  ultimately show ?thesis by linarith
qed

lemma renderLine_hd:
  assumes "list_all wellFormedField cells" and "joinFields (map renderField cells) \<noteq> []"
  shows "hd (joinFields (map renderField cells)) \<noteq> LF"
proof (cases cells)
  case Nil
  with assms(2) show ?thesis by simp
next
  case (Cons c cs)
  with assms(1) have c: "wellFormedField c" by simp
  have r: "renderField c \<noteq> [] \<Longrightarrow> hd (renderField c) \<noteq> LF"
    using c by (cases "snd c") (auto simp: renderField_def wellFormedField_def plainField_def split: if_splits)
  show ?thesis
  proof (cases "cs = []")
    case True
    with Cons assms(2) r show ?thesis by simp
  next
    case False
    with Cons r show ?thesis
      by (cases "renderField c") (simp_all add: joinFields_Cons)
  qed
qed

lemma skip_blanks:
  "list_all blankLine blanks \<Longrightarrow>
   skipEmptyLines \<lparr>unread = concat blanks @ t, fin = e\<rparr> = skipEmptyLines \<lparr>unread = t, fin = e\<rparr>"
proof (induction blanks)
  case Nil
  then show ?case by simp
next
  case (Cons b bs)
  then have "b = [LF] \<or> b = [CR, LF]" by (simp add: blankLine_def)
  from readLine_line [OF _ _ this, of "[]" "concat bs @ t" e]
  have "readLine \<lparr>unread = concat (b # bs) @ t, fin = e\<rparr>
        = ([LF], None, \<lparr>unread = concat bs @ t, fin = e\<rparr>)" by simp
  then have "skipEmptyLines \<lparr>unread = concat (b # bs) @ t, fin = e\<rparr>
             = skipEmptyLines \<lparr>unread = concat bs @ t, fin = e\<rparr>"
    by (subst skipEmptyLines.simps) (simp add: lengthNL_def)
  with Cons show ?case by simp
qed

subsection \<open>The loops of formatMap\<close>

lemma fold_ExpandString:
  "fold (\<lambda>submatches result. ExpandString pattern result template content submatches) matches acc
   = acc @ concat (map (Expand pattern template content) matches)"
  by (induction matches arbitrary: acc) (simp_all add: ExpandString_def)

lemma map_of_fold_update:
  "map_of (fold (\<lambda>key m. AList.update key (f key) m) keys m0) k
   = (if k \<in> set keys then Some (f k) else map_of m0 k)"
  by (induction keys arbitrary: m0) (auto simp: update_conv')

lemma formatMap_lookup:
  "map_of (formatMap templates pattern content) k
   = map_option (\<lambda>template. concat (map (Expand pattern template content)
                                       (FindAllStringSubmatchIndex pattern content)))
       (map_of templates k)"
proof (cases "map_of templates k")
  case None
  then have "k \<notin> set (map fst templates)" by (simp add: map_of_eq_None_iff)
  with None show ?thesis
    by (simp add: formatMap_def Let_def fold_ExpandString map_of_fold_update)
next
  case (Some t)
  then have "k \<in> set (map fst templates)" by (metis map_of_eq_None_iff option.distinct(1) set_map)
  with Some show ?thesis
    by (simp add: formatMap_def Let_def fold_ExpandString map_of_fold_update index_def)
qed

subsection \<open>Decoding UTF-8 and replacing\<close>

lemma byte_of_char_of: "n < 256 \<Longrightarrow> (of_char (char_of (n::nat)) :: nat) = n"
  by simp

lemma cont_byte:
  assumes "c < 64"
  shows "(of_char (char_of (128 + c)) :: nat) = 128 + c" and "(128 + c) mod 64 = c"
proof -
  show "(of_char (char_of (128 + c)) :: nat) = 128 + c"
    using assms by (intro byte_of_char_of) simp
  show "(128 + c) mod 64 = c"
    using assms by (simp add: mod_add_left_eq [symmetric, of 128])
qed

lemma decode1: "a < 128 \<Longrightarrow> DecodeRuneInString (char_of a # rest) = (a, 1)"
  by (simp add: DecodeRuneInString_def)

lemma decode2:
  assumes "2 \<le> a" "a < 32" "c < 64"
  shows "DecodeRuneInString (char_of (192 + a) # char_of (128 + c) # rest) = (a * 64 + c, 2)"
proof -
  have b0: "(of_char (char_of (192 + a)) :: nat) = 192 + a"
    using assms by (intro byte_of_char_of) simp
  have m0: "(192 + a) mod 32 = a" using assms by (simp add: mod_add_left_eq [symmetric, of 192])
  show ?thesis
    unfolding DecodeRuneInString_def list.case Let_def b0
    using assms by (simp add: cont_byte m0)
qed

lemma decode3:
  assumes "a < 16" "b < 64" "c < 64" "a = 0 \<longrightarrow> 32 \<le> b" "a = 13 \<longrightarrow> b < 32"
  shows "DecodeRuneInString (char_of (224 + a) # char_of (128 + b) # char_of (128 + c) # rest)
         = (a * 4096 + b * 64 + c, 3)"
proof -
  have b0: "(of_char (char_of (224 + a)) :: nat) = 224 + a"
    using assms by (intro byte_of_char_of) simp
  have m0: "(224 + a) mod 16 = a" using assms by (simp add: mod_add_left_eq [symmetric, of 224])
  show ?thesis
    unfolding DecodeRuneInString_def list.case Let_def b0
    using assms by (auto simp add: cont_byte m0)
qed

lemma decode4:
  assumes "a \<le> 4" "b < 64" "c < 64" "d < 64" "a = 0 \<longrightarrow> 16 \<le> b" "a = 4 \<longrightarrow> b < 16"
  shows "DecodeRuneInString (char_of (240 + a) # char_of (128 + b) # char_of (128 + c)
                               # char_of (128 + d) # rest)
         = (a * 262144 + b * 4096 + c * 64 + d, 4)"
proof -
  have b0: "(of_char (char_of (240 + a)) :: nat) = 240 + a"
    using assms by (intro byte_of_char_of) simp
  have m0: "(240 + a) mod 8 = a" using assms by (simp add: mod_add_left_eq [symmetric, of 240])
  show ?thesis
    unfolding DecodeRuneInString_def list.case Let_def b0
    using assms by (auto simp add: cont_byte m0)
qed

lemma decode_encode:
  assumes "validRune r"
  shows "DecodeRuneInString (EncodeRune r @ rest) = (r, length (EncodeRune r))"
proof -
  define c where "c = r mod 64"
  define q where "q = r div 64"
  define b where "b = q mod 64"
  define a where "a = q div 64"
  define b' where "b' = a mod 64"
  define a' where "a' = a div 64"
  have r: "r = 64 * q + c" "c < 64" by (simp_all add: c_def q_def)
  have q: "q = 64 * a + b" "b < 64" by (simp_all add: a_def b_def)
  have a: "a = 64 * a' + b'" "b' < 64" by (simp_all add: a'_def b'_def)
  have "r div (64 * 64) = a" "r div (64 * 64 * 64) = a'"
    unfolding div_mult2_eq by (simp_all add: a_def a'_def q_def)
  then have d: "r div 4096 = a" "r div 262144 = a'" "r div 4096 mod 64 = b'" "r div 64 mod 64 = b"
    by (simp_all add: b_def b'_def q_def)
  consider "r < 128" | "128 \<le> r" "r < 2048" | "2048 \<le> r" "r < 65536" | "65536 \<le> r"
    by linarith
  then show ?thesis
  proof cases
    case 1
    then show ?thesis by (simp add: EncodeRune_def decode1)
  next
    case 2
    with r have "2 \<le> q" "q < 32" by linarith+
    note dec = decode2 [OF this r(2), of rest]
    have enc: "EncodeRune r = [char_of (192 + q), char_of (128 + c)]"
      using 2 by (simp add: EncodeRune_def q_def c_def)
    have val: "q * 64 + c = r" using r by linarith
    show ?thesis unfolding enc using dec val by simp
  next
    case 3
    with r q assms have "a < 16" "a = 0 \<longrightarrow> 32 \<le> b" "a = 13 \<longrightarrow> b < 32"
      unfolding validRune_def by linarith+
    note dec = decode3 [OF this(1) q(2) r(2) this(2,3), of rest]
    have enc: "EncodeRune r = [char_of (224 + a), char_of (128 + b), char_of (128 + c)]"
      using 3 by (simp add: EncodeRune_def d c_def)
    have val: "a * 4096 + b * 64 + c = r" using r q by linarith
    show ?thesis unfolding enc using dec val by simp
  next
    case 4
    with r q a assms have "a' \<le> 4" "a' = 0 \<longrightarrow> 16 \<le> b'" "a' = 4 \<longrightarrow> b' < 16"
      unfolding validRune_def by linarith+
    note dec = decode4 [OF this(1) a(2) q(2) r(2) this(2,3), of rest]
    have enc: "EncodeRune r = [char_of (240 + a'), char_of (128 + b'), char_of (128 + b),
                               char_of (128 + c)]"
      using 4 by (simp add: EncodeRune_def d c_def b'_def)
    have val: "a' * 262144 + b' * 4096 + b * 64 + c = r" using r q a by linarith
    show ?thesis unfolding enc using dec val by simp
  qed
qed

lemma ReplaceAllString_Nil: "ReplaceAllString w [] repl = []"
  by (subst ReplaceAllString.simps) simp

lemma EncodeRune_not_Nil: "EncodeRune r \<noteq> []"
  by (simp add: EncodeRune_def)

lemma ReplaceAllString_rune:
  assumes "validRune r"
  shows "ReplaceAllString w (EncodeRune r @ rest) repl
         = (if invalidCharacters w r then repl else EncodeRune r) @ ReplaceAllString w rest repl"
  by (subst ReplaceAllString.simps) (simp add: decode_encode [OF assms] EncodeRune_not_Nil)

lemma invalidCharacters_iff: "invalidCharacters w r \<longleftrightarrow> \<not> allowedCharacter w r"
proof (cases "r < 128")
  case True
  then show ?thesis
    unfolding invalidCharacters_def allowedCharacter_def generalCategory_def asciiCategory_def
    by (simp del: of_char_Char) (simp; linarith)
next
  case False
  then show ?thesis
    unfolding invalidCharacters_def allowedCharacter_def generalCategory_def
    by auto
qed

lemma digit_div: "c < 64 \<Longrightarrow> (x * 64 + c) div 64 = (x::nat)"
  by simp

lemma digit_mod: "c < 64 \<Longrightarrow> (x * 64 + c) mod 64 = (c::nat)"
  by simp

lemma encode2:
  assumes "2 \<le> a" "a < 32" "c < 64"
  shows "EncodeRune (a * 64 + c) = [char_of (192 + a), char_of (128 + c)]"
    and "validRune (a * 64 + c)"
proof -
  have "(a * 64 + c) div 64 = a" "(a * 64 + c) mod 64 = c" using assms by simp_all
  moreover have "128 \<le> a * 64 + c" "a * 64 + c < 2048" using assms by linarith+
  ultimately show "EncodeRune (a * 64 + c) = [char_of (192 + a), char_of (128 + c)]"
    by (simp add: EncodeRune_def)
  show "validRune (a * 64 + c)" using assms unfolding validRune_def by linarith
qed

lemma encode3:
  assumes "a < 16" "b < 64" "c < 64" "a = 0 \<longrightarrow> 32 \<le> b" "a = 13 \<longrightarrow> b < 32"
  shows "EncodeRune (a * 4096 + b * 64 + c) = [char_of (224 + a), char_of (128 + b), char_of (128 + c)]"
    and "validRune (a * 4096 + b * 64 + c)"
proof -
  let ?r = "a * 4096 + b * 64 + c"
  have r: "?r = (a * 64 + b) * 64 + c" by simp
  have q: "?r div 64 = a * 64 + b" "?r mod 64 = c"
    using assms(3) by (simp_all only: r digit_div digit_mod)
  have q2: "?r div 64 div 64 = a" "?r div 64 mod 64 = b"
    using assms(2) by (simp_all only: q digit_div digit_mod)
  have "?r div (64 * 64) = a" unfolding div_mult2_eq by (rule q2)
  then have "?r div 4096 = a" by simp
  note q q2 this
  moreover have "2048 \<le> ?r" "?r < 65536" using assms by linarith+
  ultimately show "EncodeRune ?r = [char_of (224 + a), char_of (128 + b), char_of (128 + c)]"
    unfolding EncodeRune_def by (simp only: q2 q(2) \<open>?r div 4096 = a\<close>, simp?)
  consider "a \<le> 12" | "a = 13" | "14 \<le> a" by linarith
  then show "validRune ?r"
  proof cases
    case 1
    with assms have "?r < 55296" by linarith
    then show ?thesis by (simp add: validRune_def)
  next
    case 2
    with assms have "?r < 55296" by simp
    then show ?thesis by (simp add: validRune_def)
  next
    case 3
    with assms have "57344 \<le> ?r" "?r \<le> 1114111" by linarith+
    then show ?thesis by (simp add: validRune_def)
  qed
qed

lemma encode4:
  assumes "a \<le> 4" "b < 64" "c < 64" "d < 64" "a = 0 \<longrightarrow> 16 \<le> b" "a = 4 \<longrightarrow> b < 16"
  shows "EncodeRune (a * 262144 + b * 4096 + c * 64 + d)
         = [char_of (240 + a), char_of (128 + b), char_of (128 + c), char_of (128 + d)]"
    and "validRune (a * 262144 + b * 4096 + c * 64 + d)"
proof -
  let ?r = "a * 262144 + b * 4096 + c * 64 + d"
  have r: "?r = ((a * 64 + b) * 64 + c) * 64 + d" by simp
  have q: "?r div 64 = (a * 64 + b) * 64 + c" "?r mod 64 = d"
    using assms(4) by (simp_all only: r digit_div digit_mod)
  have q2: "?r div 64 div 64 = a * 64 + b" "?r div 64 mod 64 = c"
    using assms(3) by (simp_all only: q digit_div digit_mod)
  have q3: "?r div 64 div 64 div 64 = a" "?r div 64 div 64 mod 64 = b"
    using assms(2) by (simp_all only: q2 digit_div digit_mod)
  have "?r div (64 * 64) = a * 64 + b" "?r div (64 * 64 * 64) = a"
    unfolding div_mult2_eq by (rule q2 q3)+
  then have d: "?r div 4096 = a * 64 + b" "?r div 262144 = a" by simp_all
  have d2: "?r div 4096 mod 64 = b" unfolding d using assms(2) by (rule digit_mod)
  have "65536 \<le> ?r" using assms by linarith
  then have rng: "\<not> ?r < 128" "\<not> ?r < 2048" "\<not> ?r < 65536" by linarith+
  show "EncodeRune ?r
         = [char_of (240 + a), char_of (128 + b), char_of (128 + c), char_of (128 + d)]"
    unfolding EncodeRune_def by (simp only: rng if_False d(2) d2 q2(2) q(2), simp?)
  consider "a \<le> 3" | "a = 4" by (use assms(1) in linarith)
  then have "?r \<le> 1114111"
  proof cases
    case 1
    with assms show ?thesis by linarith
  next
    case 2
    with assms show ?thesis by simp
  qed
  with \<open>65536 \<le> ?r\<close> show "validRune ?r" by (simp add: validRune_def)
qed

lemma cont_char:
  assumes "128 \<le> (of_char c :: nat)" and "(of_char c :: nat) \<le> 191"
  shows "\<exists>x::nat. x < 64 \<and> c = char_of (128 + x)"
proof -
  have "(of_char c :: nat) - 128 < 64" using assms by simp
  moreover have "128 + ((of_char c :: nat) - 128) = of_char c" using assms by simp
  then have "c = char_of (128 + ((of_char c :: nat) - 128))" by simp
  ultimately show ?thesis by blast
qed

lemma lead_char:
  assumes "k \<le> (of_char c :: nat)"
  shows "c = char_of (k + ((of_char c :: nat) - k))"
proof -
  have "k + ((of_char c :: nat) - k) = of_char c" using assms by simp
  then show ?thesis by simp
qed

lemma decode_ascii:
  assumes "(of_char c0 :: nat) < 128"
  shows "\<exists>r rest. validRune r \<and> c0 # t = EncodeRune r @ rest"
proof -
  have "validRune (of_char c0)" using assms by (simp add: validRune_def)
  moreover have "c0 # t = EncodeRune (of_char c0) @ t" using assms by (simp add: EncodeRune_def)
  ultimately show ?thesis by blast
qed

lemma decode_bad_lead:
  assumes "128 \<le> (of_char c0 :: nat)" and "(of_char c0 :: nat) < 194 \<or> 244 < (of_char c0 :: nat)"
  shows "DecodeRuneInString (c0 # t) = (RuneError, 1)"
  using assms by (auto simp: DecodeRuneInString_def)

lemma decode_two:
  assumes "194 \<le> (of_char c0 :: nat)" and "(of_char c0 :: nat) < 224"
  shows "DecodeRuneInString (c0 # t) = (RuneError, 1)
         \<or> (\<exists>r rest. validRune r \<and> c0 # t = EncodeRune r @ rest)"
proof (cases t)
  case Nil
  with assms show ?thesis by (simp add: DecodeRuneInString_def)
next
  case (Cons c1 t1)
  show ?thesis
  proof (cases "128 \<le> (of_char c1 :: nat) \<and> (of_char c1 :: nat) \<le> 191")
    case False
    with assms Cons show ?thesis
      by (auto simp: DecodeRuneInString_def Let_def)
  next
    case True
    then obtain x :: nat where x: "x < 64" "c1 = char_of (128 + x)" using cont_char by blast
    let ?a = "(of_char c0 :: nat) - 192"
    from assms have a: "2 \<le> ?a" "?a < 32" by simp_all
    from assms have "c0 = char_of (192 + ?a)" by (intro lead_char) simp
    with encode2 [OF a x(1)] x(2) Cons
    have "validRune (?a * 64 + x)" "c0 # t = EncodeRune (?a * 64 + x) @ t1"
      by simp_all
    then show ?thesis by blast
  qed
qed

lemma decode_three:
  assumes "224 \<le> (of_char c0 :: nat)" and "(of_char c0 :: nat) < 240"
  shows "DecodeRuneInString (c0 # t) = (RuneError, 1)
         \<or> (\<exists>r rest. validRune r \<and> c0 # t = EncodeRune r @ rest)"
proof (cases "\<exists>c1 c2 t2. t = c1 # c2 # t2")
  case False
  then have "length (c0 # t) < 3" by (cases t; cases "tl t") auto
  with assms show ?thesis
    by (simp add: DecodeRuneInString_def Let_def)
next
  case True
  then obtain c1 c2 t2 where t: "t = c1 # c2 # t2" by blast
  define lo :: nat where "lo = (if (of_char c0 :: nat) = 224 then 160 else 128)"
  define hi :: nat where "hi = (if (of_char c0 :: nat) = 237 then 159 else 191)"
  have dec: "DecodeRuneInString (c0 # t)
      = (if (of_char c1 :: nat) < lo \<or> hi < (of_char c1 :: nat) then (RuneError, 1)
         else if (of_char c2 :: nat) < 128 \<or> 191 < (of_char c2 :: nat) then (RuneError, 1)
         else ((of_char c0 :: nat) mod 16 * 4096 + (of_char c1 :: nat) mod 64 * 64
               + (of_char c2 :: nat) mod 64, 3))"
    using assms by (simp add: t DecodeRuneInString_def Let_def lo_def hi_def)
  show ?thesis
  proof (cases "lo \<le> (of_char c1 :: nat) \<and> (of_char c1 :: nat) \<le> hi
                \<and> 128 \<le> (of_char c2 :: nat) \<and> (of_char c2 :: nat) \<le> 191")
    case False
    then show ?thesis unfolding dec by auto
  next
    case True
    then have "128 \<le> (of_char c1 :: nat)" "(of_char c1 :: nat) \<le> 191"
      by (simp_all add: lo_def hi_def split: if_splits)
    then obtain x :: nat where x: "x < 64" "c1 = char_of (128 + x)" using cont_char by blast
    from True obtain y :: nat where y: "y < 64" "c2 = char_of (128 + y)" using cont_char by blast
    have x1: "(of_char c1 :: nat) = 128 + x" using x by simp
    let ?a = "(of_char c0 :: nat) - 224"
    from assms have a: "?a < 16" by simp
    have e: "?a = 0 \<longleftrightarrow> (of_char c0 :: nat) = 224" "?a = 13 \<longleftrightarrow> (of_char c0 :: nat) = 237"
      using assms by linarith+
    have b: "?a = 0 \<longrightarrow> 32 \<le> x" "?a = 13 \<longrightarrow> x < 32"
      using True unfolding e x1 lo_def hi_def by (simp_all split: if_splits)
    from assms have "c0 = char_of (224 + ?a)" by (intro lead_char) simp
    with encode3 [OF a x(1) y(1) b] x(2) y(2) t
    have "validRune (?a * 4096 + x * 64 + y)" "c0 # t = EncodeRune (?a * 4096 + x * 64 + y) @ t2"
      by simp_all
    then show ?thesis by blast
  qed
qed

lemma decode_four:
  assumes "240 \<le> (of_char c0 :: nat)" and "(of_char c0 :: nat) \<le> 244"
  shows "DecodeRuneInString (c0 # t) = (RuneError, 1)
         \<or> (\<exists>r rest. validRune r \<and> c0 # t = EncodeRune r @ rest)"
proof (cases "\<exists>c1 c2 c3 t3. t = c1 # c2 # c3 # t3")
  case False
  then have "length (c0 # t) < 4" by (cases t; cases "tl t"; cases "tl (tl t)") auto
  with assms show ?thesis
    by (simp add: DecodeRuneInString_def Let_def)
next
  case True
  then obtain c1 c2 c3 t3 where t: "t = c1 # c2 # c3 # t3" by blast
  define lo :: nat where "lo = (if (of_char c0 :: nat) = 240 then 144 else 128)"
  define hi :: nat where "hi = (if (of_char c0 :: nat) = 244 then 143 else 191)"
  have dec: "DecodeRuneInString (c0 # t)
      = (if (of_char c1 :: nat) < lo \<or> hi < (of_char c1 :: nat) then (RuneError, 1)
         else if (of_char c2 :: nat) < 128 \<or> 191 < (of_char c2 :: nat) then (RuneError, 1)
         else if (of_char c3 :: nat) < 128 \<or> 191 < (of_char c3 :: nat) then (RuneError, 1)
         else ((of_char c0 :: nat) mod 8 * 262144 + (of_char c1 :: nat) mod 64 * 4096
               + (of_char c2 :: nat) mod 64 * 64 + (of_char c3 :: nat) mod 64, 4))"
    using assms by (simp add: t DecodeRuneInString_def Let_def lo_def hi_def)
  show ?thesis
  proof (cases "lo \<le> (of_char c1 :: nat) \<and> (of_char c1 :: nat) \<le> hi
                \<and> 128 \<le> (of_char c2 :: nat) \<and> (of_char c2 :: nat) \<le> 191
                \<and> 128 \<le> (of_char c3 :: nat) \<and> (of_char c3 :: nat) \<le> 191")
    case False
    then show ?thesis unfolding dec by auto
  next
    case True
    then have "128 \<le> (of_char c1 :: nat)" "(of_char c1 :: nat) \<le> 191"
      by (simp_all add: lo_def hi_def split: if_splits)
    then obtain x :: nat where x: "x < 64" "c1 = char_of (128 + x)" using cont_char by blast
    from True obtain y :: nat where y: "y < 64" "c2 = char_of (128 + y)" using cont_char by blast
    from True obtain z :: nat where z: "z < 64" "c3 = char_of (128 + z)" using cont_char by blast
    have x1: "(of_char c1 :: nat) = 128 + x" using x by simp
    let ?a = "(of_char c0 :: nat) - 240"
    from assms have a: "?a \<le> 4" by simp
    have e: "?a = 0 \<longleftrightarrow> (of_char c0 :: nat) = 240" "?a = 4 \<longleftrightarrow> (of_char c0 :: nat) = 244"
      using assms by linarith+
    have b: "?a = 0 \<longrightarrow> 16 \<le> x" "?a = 4 \<longrightarrow> x < 16"
      using True unfolding e x1 lo_def hi_def by (simp_all split: if_splits)
    from assms have "c0 = char_of (240 + ?a)" by (intro lead_char) simp
    with encode4 [OF a x(1) y(1) z(1) b] x(2) y(2) z(2) t
    have "validRune (?a * 262144 + x * 4096 + y * 64 + z)"
      "c0 # t = EncodeRune (?a * 262144 + x * 4096 + y * 64 + z) @ t3"
      by simp_all
    then show ?thesis by blast
  qed
qed

lemma decode_invalid:
  assumes "s \<noteq> []" and no: "\<not> (\<exists>r rest. validRune r \<and> s = EncodeRune r @ rest)"
  shows "DecodeRuneInString s = (RuneError, 1)"
proof -
  from assms(1) obtain c0 t where s: "s = c0 # t" by (cases s) auto
  let ?s0 = "of_char c0 :: nat"
  show ?thesis
  proof (cases "?s0 < 128")
    case True
    from decode_ascii [OF this, of t] no s show ?thesis by simp
  next
    case n1: False
    show ?thesis
    proof (cases "?s0 < 194 \<or> 244 < ?s0")
      case True
      with n1 show ?thesis unfolding s by (intro decode_bad_lead) simp_all
    next
      case n2: False
      show ?thesis
      proof (cases "?s0 < 224")
        case True
        with n2 decode_two [of c0 t] no s show ?thesis by auto
      next
        case n3: False
        show ?thesis
        proof (cases "?s0 < 240")
          case True
          with n3 decode_three [of c0 t] no s show ?thesis by auto
        next
          case False
          with n2 decode_four [of c0 t] no s show ?thesis by auto
        qed
      qed
    qed
  qed
qed

lemma ReplaceAllString_invalid_byte:
  assumes "\<not> (\<exists>r rest'. validRune r \<and> b # rest = EncodeRune r @ rest')"
  shows "ReplaceAllString w (b # rest) repl
         = (if invalidCharacters w RuneError then repl else [b]) @ ReplaceAllString w rest repl"
  by (subst ReplaceAllString.simps) (simp add: decode_invalid [OF _ assms])

lemma load_job:
  assumes "csvHeader r = Returns (Some header, br, None)" and "NewClient w projectID = None"
  shows "snd (load w projectID datasetID tableID r)
         = [LoaderRun \<lparr>jobProject = projectID, jobDataset = datasetID, jobTable = tableID,
                        jobSchema = map (\<lambda>v. ReplaceAllString w v ''_'') header,
                        jobSource = br, jobAllowQuotedNewlines = True,
                        jobWriteTruncate = True\<rparr>]"
  using assms by (auto simp: load_def Let_def split: option.splits outcome.splits)

subsection \<open>The claims\<close>

text \<open>
  C1 (as amended). Let the content of the stream be the byte-order mark, any number of
  blank lines, a header record, a line end (line feed, or carriage return and line feed)
  and any further content, where each field of the header record is written unquoted
  (without comma, quote, carriage return or line feed) or enclosed in quotes with every
  inner quote doubled (a quoted value may hold commas, quotes and line feeds). Then
  \<open>csvHeader\<close> returns the values of these fields as the header, no error, and a reader
  whose content is exactly the further content. For the input \<open>"\uFEFFa,b,c\n1,2,3\n"\<close> the
  header is a, b, c and the remaining content is \<open>"1,2,3\n"\<close>.
\<close>

theorem csvHeader_record:
  assumes "contents r = Returns \<lparr>unread = BOM @ concat blanks @ joinFields (map renderField cells)
                                     @ eol @ rest, fin = e\<rparr>"
    and "list_all blankLine blanks"
    and "list_all wellFormedField cells" and "joinFields (map renderField cells) \<noteq> []"
    and "eol = [LF] \<or> eol = [CR, LF]"
  shows "csvHeader r = Returns (Some (map snd cells), Some \<lparr>unread = rest, fin = e\<rparr>, None)"
proof -
  let ?H = "joinFields (map renderField cells)"
  from assms(4) have cells: "cells \<noteq> []" by auto
  have rl: "readLine \<lparr>unread = ?H @ eol @ rest, fin = e\<rparr>
            = (firstLine ?H, None, \<lparr>unread = afterFirst eol rest ?H, fin = e\<rparr>)"
    using renderLine_CR [OF assms(3)] assms(5) by (rule readLine_first)
  have nb: "length (firstLine ?H) \<noteq> lengthNL (firstLine ?H)"
    using assms(4) renderLine_hd [OF assms(3,4)] by (rule firstLine_not_blank)
  have "skipEmptyLines \<lparr>unread = ?H @ eol @ rest, fin = e\<rparr>
        = (firstLine ?H, None, \<lparr>unread = afterFirst eol rest ?H, fin = e\<rparr>)"
    by (subst skipEmptyLines.simps) (simp add: rl nb)
  with skip_blanks [OF assms(2), of "?H @ eol @ rest" e]
  have sk: "skipEmptyLines \<lparr>unread = concat blanks @ ?H @ eol @ rest, fin = e\<rparr>
        = (firstLine ?H, None, \<lparr>unread = afterFirst eol rest ?H, fin = e\<rparr>)" by simp
  have rd: "csvRead \<lparr>unread = concat blanks @ ?H @ eol @ rest, fin = e\<rparr>
            = (Some (map snd cells), None, \<lparr>unread = rest, fin = e\<rparr>)"
    by (simp add: csvRead_def sk parse_cells [OF assms(5) cells assms(3)])
  show ?thesis
    using assms(1) by (simp add: csvHeader_def Peek_def Discard_def BOM_def rd)
qed

theorem csvHeader_record_witness:
  "csvHeader (Source \<lparr>unread = BOM @ ''a,b,c\<newline>1,2,3\<newline>'', fin = EOF\<rparr> False)
     = Returns (Some [''a'', ''b'', ''c''], Some \<lparr>unread = ''1,2,3\<newline>'', fin = EOF\<rparr>, None)
   \<and> csvHeader (Source \<lparr>unread = BOM @ [LF, CR, LF] @ [QUOTE] @ ''x,'' @ [QUOTE, QUOTE] @ ''y''
                                    @ [QUOTE, QUOTE, LF] @ ''z'' @ [QUOTE] @ '',k'' @ [CR, LF]
                                    @ ''1,2'', fin = EOF\<rparr> False)
     = Returns (Some [''x,'' @ [QUOTE] @ ''y'' @ [QUOTE, LF] @ ''z'', ''k''],
                Some \<lparr>unread = ''1,2'', fin = EOF\<rparr>, None)"
  using
    csvHeader_record [of "Source \<lparr>unread = BOM @ ''a,b,c\<newline>1,2,3\<newline>'', fin = EOF\<rparr> False"
      "[]" "[(False, ''a''), (False, ''b''), (False, ''c'')]" "[LF]" "''1,2,3\<newline>''" EOF]
    csvHeader_record [of "Source \<lparr>unread = BOM @ [LF, CR, LF] @ [QUOTE] @ ''x,'' @ [QUOTE, QUOTE]
                                    @ ''y'' @ [QUOTE, QUOTE, LF] @ ''z'' @ [QUOTE] @ '',k''
                                    @ [CR, LF] @ ''1,2'', fin = EOF\<rparr> False"
      "[[LF], [CR, LF]]"
      "[(True, ''x,'' @ [QUOTE] @ ''y'' @ [QUOTE, LF] @ ''z''), (False, ''k'')]"
      "[CR, LF]" "''1,2''" EOF]
  by (simp add: renderField_def wellFormedField_def plainField_def blankLine_def)

text \<open>
  C1, the claim as stated fails: in the header line \<open>a,"b" c,d\<close> the second field goes on
  after its closing quote. The reader, which accepts such quotes, takes all that follows
  into this field: the header is a and \<open>b" c,d\n1,2,3\n\<close>, and the reader returned is at
  the end of the input, not after the header line.
\<close>

theorem csvHeader_lazy_quote_counterexample:
  "csvHeader (Source \<lparr>unread = BOM @ ''a,'' @ [QUOTE] @ ''b'' @ [QUOTE] @ '' c,d\<newline>1,2,3\<newline>'',
                       fin = EOF\<rparr> False)
   = Returns (Some [''a'', ''b'' @ [QUOTE] @ '' c,d\<newline>1,2,3\<newline>''],
              Some \<lparr>unread = [], fin = EOF\<rparr>, None)"
  by code_simp

text \<open>
  C2. \<open>formatMap\<close> maps each name of \<open>templates\<close> to the concatenation, in the order of the
  matches, of what the name's template expands to for each match of the pattern in the
  content, and it has no other names. So when the pattern has no match every name is
  mapped to the empty string, and for empty \<open>templates\<close> the result is empty.
\<close>

theorem formatMap_concat:
  "map_of (formatMap templates pattern content)
     = map_option (\<lambda>template. concat (map (Expand pattern template content)
                                         (FindAllStringSubmatchIndex pattern content)))
         \<circ> map_of templates
   \<and> (FindAllStringSubmatchIndex pattern content = [] \<longrightarrow>
        (\<forall>name \<in> fst ` set templates. map_of (formatMap templates pattern content) name = Some []))
   \<and> formatMap [] pattern content = []"
proof (intro conjI impI ballI)
  show "map_of (formatMap templates pattern content)
     = map_option (\<lambda>template. concat (map (Expand pattern template content)
                                         (FindAllStringSubmatchIndex pattern content)))
         \<circ> map_of templates"
    by (rule ext) (simp add: formatMap_lookup)
next
  fix name
  assume "FindAllStringSubmatchIndex pattern content = []" and "name \<in> fst ` set templates"
  then show "map_of (formatMap templates pattern content) name = Some []"
    by (cases "map_of templates name") (auto simp: formatMap_lookup map_of_eq_None_iff)
next
  show "formatMap [] pattern content = []" by (simp add: formatMap_def)
qed

theorem formatMap_concat_witness:
  "formatMap [(''ids'', ''$0''), (''n'', ''$0'')]
     \<lparr>FindAllStringSubmatchIndex = (\<lambda>content. [[0, 2], [3, 5]]),
      Expand = (\<lambda>template src match. wholeMatch src match)\<rparr> ''ab,cd''
     = [(''ids'', ''abcd''), (''n'', ''abcd'')]
   \<and> map_of (formatMap [(''ids'', ''$0'')]
       \<lparr>FindAllStringSubmatchIndex = (\<lambda>content. []),
        Expand = (\<lambda>template src match. wholeMatch src match)\<rparr> ''ab,cd'') ''ids'' = Some []"
proof -
  let ?never = "\<lparr>FindAllStringSubmatchIndex = (\<lambda>content. []),
        Expand = (\<lambda>template src match. wholeMatch src match)\<rparr>"
  have "FindAllStringSubmatchIndex ?never ''ab,cd'' = []" by simp
  moreover have "''ids'' \<in> fst ` set [(''ids'', ''$0'')]" by simp
  ultimately have "map_of (formatMap [(''ids'', ''$0'')] ?never ''ab,cd'') ''ids'' = Some []"
    using formatMap_concat [of "[(''ids'', ''$0'')]" ?never "''ab,cd''"] by blast
  moreover have "formatMap [(''ids'', ''$0''), (''n'', ''$0'')]
     \<lparr>FindAllStringSubmatchIndex = (\<lambda>content. [[0, 2], [3, 5]]),
      Expand = (\<lambda>template src match. wholeMatch src match)\<rparr> ''ab,cd''
     = [(''ids'', ''abcd''), (''n'', ''abcd'')]"
    by (simp add: formatMap_def ExpandString_def wholeMatch_def index_def)
  ultimately show ?thesis by simp
qed

text \<open>
  C3 (fails on the code). The claim: a null stream, as \<open>unzip\<close> returns it for an archive
  without entries, is treated by \<open>load\<close> as "no data"; \<open>load\<close> ends normally or with an
  ordinary error, never with a nil dereference.
  The code: \<open>load\<close> on the nil reader panics, for all other arguments and whatever the
  libraries do, before any load job is started: \<open>csvHeader\<close> peeks into the nil reader.
\<close>

theorem load_nil_reader_panics:
  "load w projectID datasetID tableID NilReader = (Panics, [])"
  by (simp add: load_def csvHeader_def)

theorem load_nil_reader_panics_witness:
  "tweak (withArchive emptyArchive [] offline) \<lparr>Call = ''unzip'', Args = []\<rparr>
       (Source \<lparr>unread = emptyArchive, fin = EOF\<rparr> False)
     = Returns ((NilReader, None), Source \<lparr>unread = [], fin = EOF\<rparr> True)
   \<and> load (withArchive emptyArchive [] offline) ''project'' ''dataset'' ''table'' NilReader
       = (Panics, [])"
  using load_nil_reader_panics [of "withArchive emptyArchive [] offline" "''project''"
      "''dataset''" "''table''"]
  by (simp add: tweak_def unzip_def withArchive_def offline_def)

text \<open>
  C4 (fails on the code). The claim: with a non-empty method or URL and an invalid
  pattern, \<open>preExtract\<close> returns an error to its caller and does not crash.
  The code: when the request has been answered (status at most 299) and the answer read,
  \<open>regexp.MustCompile\<close> panics on the invalid pattern; \<open>preExtract\<close> returns nothing.
\<close>

theorem preExtract_invalid_pattern_panics:
  assumes "Method p \<noteq> [] \<or> Url p \<noteq> []"
    and "NewRequest w (Method p) (Url p) = None"
    and "Do w (formRequest (Method p) (Url p) (Body p)) = Inr (StatusCode, respBody)"
    and "StatusCode \<le> 299" and "fin respBody = EOF"
    and "regexpCompile w (Pattern p) = None"
  shows "preExtract w p e = (Panics, [HttpDo (formRequest (Method p) (Url p) (Body p))])"
  using assms by (auto simp: preExtract_def request_def ReadAll_def)

theorem preExtract_invalid_pattern_panics_witness:
  "preExtract (respond 200 ''token=abc'' offline)
      \<lparr>Method = ''GET'', Url = ''http://example.com/login'', Body = [], Pattern = ''(''\<rparr>
      \<lparr>Method = ''POST'', Url = ''http://example.com/data'', Body = [(''token'', ''$1'')]\<rparr>
   = (Panics, [HttpDo \<lparr>reqMethod = ''GET'', reqUrl = ''http://example.com/login'', reqForm = [],
                        reqFormContentType = False\<rparr>])"
  using preExtract_invalid_pattern_panics [of
      "\<lparr>Method = ''GET'', Url = ''http://example.com/login'', Body = [], Pattern = ''(''\<rparr>"
      "respond 200 ''token=abc'' offline" 200 "\<lparr>unread = ''token=abc'', fin = EOF\<rparr>"
      "\<lparr>Method = ''POST'', Url = ''http://example.com/data'', Body = [(''token'', ''$1'')]\<rparr>"]
  by (simp add: respond_def offline_def formRequest_def)

text \<open>
  C5. When the input is read to its end without error and is an archive that
  \<open>zip.NewReader\<close> accepts: for an archive without entries \<open>unzip\<close> returns the nil reader
  and no error (every error return has an error); for an archive whose first entry opens,
  \<open>unzip\<close> returns a reader whose content is that entry's stream, whatever entries
  follow. The input has been read and closed.
\<close>

theorem unzip_first_entry:
  assumes "contents reader = Returns s" and "fin s = EOF"
    and "Close (drained reader) = Returns reader'"
    and "zipNewReader w (unread s) = Inr File"
  shows "(File = [] \<longrightarrow> unzip w reader = Returns ((NilReader, None), reader'))
       \<and> (\<forall>f rest entry. File = f # rest \<and> fileOpen f = Inr entry \<longrightarrow>
             unzip w reader = Returns ((Source entry False, None), reader')
             \<and> contents (Source entry False) = Returns entry)"
  using assms by (auto simp: unzip_def)

theorem unzip_first_entry_witness:
  "unzip (withArchive emptyArchive [] offline) (Source \<lparr>unread = emptyArchive, fin = EOF\<rparr> False)
     = Returns ((NilReader, None), Source \<lparr>unread = [], fin = EOF\<rparr> True)
   \<and> unzip (withArchive ''PK two entries''
               [\<lparr>fileName = ''first.csv'', fileOpen = Inr \<lparr>unread = ''a,b\<newline>1,2\<newline>'', fin = EOF\<rparr>\<rparr>,
                \<lparr>fileName = ''second.csv'', fileOpen = Inr \<lparr>unread = ''c\<newline>3\<newline>'', fin = EOF\<rparr>\<rparr>]
               offline)
        (Source \<lparr>unread = ''PK two entries'', fin = EOF\<rparr> False)
     = Returns ((Source \<lparr>unread = ''a,b\<newline>1,2\<newline>'', fin = EOF\<rparr> False, None),
                Source \<lparr>unread = [], fin = EOF\<rparr> True)"
  using
    unzip_first_entry [of "Source \<lparr>unread = emptyArchive, fin = EOF\<rparr> False"
      "\<lparr>unread = emptyArchive, fin = EOF\<rparr>" "Source \<lparr>unread = [], fin = EOF\<rparr> True"
      "withArchive emptyArchive [] offline" "[]"]
    unzip_first_entry [of "Source \<lparr>unread = ''PK two entries'', fin = EOF\<rparr> False"
      "\<lparr>unread = ''PK two entries'', fin = EOF\<rparr>" "Source \<lparr>unread = [], fin = EOF\<rparr> True"
      "withArchive ''PK two entries''
               [\<lparr>fileName = ''first.csv'', fileOpen = Inr \<lparr>unread = ''a,b\<newline>1,2\<newline>'', fin = EOF\<rparr>\<rparr>,
                \<lparr>fileName = ''second.csv'', fileOpen = Inr \<lparr>unread = ''c\<newline>3\<newline>'', fin = EOF\<rparr>\<rparr>]
               offline"
      "[\<lparr>fileName = ''first.csv'', fileOpen = Inr \<lparr>unread = ''a,b\<newline>1,2\<newline>'', fin = EOF\<rparr>\<rparr>,
                \<lparr>fileName = ''second.csv'', fileOpen = Inr \<lparr>unread = ''c\<newline>3\<newline>'', fin = EOF\<rparr>\<rparr>]"]
  by (simp add: withArchive_def)

text \<open>
  C6 (as amended). \<open>request\<close> returns an error if and only if the request cannot be built,
  or the transport fails, or the status code of the response is greater than 299; with
  an error it returns no body. A response with a status code of at most 299, also one
  below 100, is a success: \<open>request\<close> returns the body of the response and no error,
  having sent the one request.
\<close>

theorem request_result:
  "(snd (fst (request w method url body)) \<noteq> None \<longleftrightarrow>
      NewRequest w method url \<noteq> None
      \<or> (case Do w (formRequest method url body) of
            Inl err \<Rightarrow> True
          | Inr (StatusCode, respBody) \<Rightarrow> StatusCode > 299))
   \<and> (snd (fst (request w method url body)) \<noteq> None \<longrightarrow>
        fst (fst (request w method url body)) = NilReader)
   \<and> (\<forall>StatusCode respBody.
        NewRequest w method url = None
        \<and> Do w (formRequest method url body) = Inr (StatusCode, respBody)
        \<and> StatusCode \<le> 299 \<longrightarrow>
        request w method url body
        = ((Source respBody False, None), [HttpDo (formRequest method url body)]))"
  by (auto simp: request_def Let_def split: option.splits sum.splits prod.splits)

theorem request_result_witness:
  "request (respond 404 ''not found'' offline) ''GET'' ''http://example.com/'' []
     = ((NilReader, Some (StatusCodeError 404)),
        [HttpDo \<lparr>reqMethod = ''GET'', reqUrl = ''http://example.com/'', reqForm = [],
                 reqFormContentType = False\<rparr>])
   \<and> request (respond 200 ''a,b'' offline) ''POST'' ''http://example.com/'' [(''k'', ''v'')]
     = ((Source \<lparr>unread = ''a,b'', fin = EOF\<rparr> False, None),
        [HttpDo \<lparr>reqMethod = ''POST'', reqUrl = ''http://example.com/'', reqForm = [(''k'', ''v'')],
                 reqFormContentType = True\<rparr>])
   \<and> request offline ''GET'' ''http://example.com/'' []
     = ((NilReader, Some (LibError ''connection refused'')),
        [HttpDo \<lparr>reqMethod = ''GET'', reqUrl = ''http://example.com/'', reqForm = [],
                 reqFormContentType = False\<rparr>])"
  using request_result [of "respond 200 ''a,b'' offline" "''POST''" "''http://example.com/''"
      "[(''k'', ''v'')]"]
  by (simp add: request_def formRequest_def respond_def offline_def)

text \<open>
  C6, the claim as stated fails: a response with status code 99, outside [100,299], is
  returned as a success, with the body and no error.
\<close>

theorem request_status_99_counterexample:
  "request (respond 99 ''a,b'' offline) ''GET'' ''http://example.com/'' []
   = ((Source \<lparr>unread = ''a,b'', fin = EOF\<rparr> False, None),
      [HttpDo \<lparr>reqMethod = ''GET'', reqUrl = ''http://example.com/'', reqForm = [],
               reqFormContentType = False\<rparr>])"
  by (simp add: request_def formRequest_def respond_def offline_def)

text \<open>
  C7. A tweak whose \<open>Call\<close> is neither "unzip" nor "convert" fails with the error
  "unsupported call" and leaves its input reader as it was, neither read nor closed. When
  the document has such a tweak, \<open>handler\<close> does not answer 200 and no load job is
  started.
\<close>

theorem unsupported_call:
  assumes "Call t \<noteq> ''unzip''" and "Call t \<noteq> ''convert''"
  shows "tweak w t reader = Returns ((NilReader, Some (UnsupportedCall (Call t))), reader)
       \<and> (t \<in> set (dTweaks d) \<longrightarrow>
            fst (handler w (Inr d)) \<noteq> Returns 200
            \<and> (\<forall>job. LoaderRun job \<notin> set (snd (handler w (Inr d)))))"
proof (intro conjI impI allI)
  show "tweak w t reader = Returns ((NilReader, Some (UnsupportedCall (Call t))), reader)"
    using assms by (rule tweak_default)
next
  assume t: "t \<in> set (dTweaks d)"
  have no: "tweakAll w (dTweaks d) r = Returns (r', None) \<Longrightarrow> False" for r r'
    using tweakAll_default [OF t assms] by blast
  show "fst (handler w (Inr d)) \<noteq> Returns 200"
    by (auto simp: handler_def split: outcome.splits prod.splits if_splits dest: no)
  fix job
  show "LoaderRun job \<notin> set (snd (handler w (Inr d)))"
    by (auto simp: handler_def split: outcome.splits prod.splits if_splits
        dest: no request_no_load preExtract_no_load)
qed

theorem unsupported_call_witness:
  "Call \<lparr>Call = ''gunzip'', Args = []\<rparr> \<noteq> ''unzip''
   \<and> Call \<lparr>Call = ''gunzip'', Args = []\<rparr> \<noteq> ''convert''
   \<and> tweak offline \<lparr>Call = ''gunzip'', Args = []\<rparr> (Source \<lparr>unread = ''a,b\<newline>'', fin = EOF\<rparr> False)
       = Returns ((NilReader, Some (UnsupportedCall ''gunzip'')),
                  Source \<lparr>unread = ''a,b\<newline>'', fin = EOF\<rparr> False)
   \<and> \<lparr>Call = ''gunzip'', Args = []\<rparr>
       \<in> set (dTweaks \<lparr>dPreExtraction = \<lparr>Method = [], Url = [], Body = [], Pattern = []\<rparr>,
                        dExtraction = \<lparr>Method = ''GET'', Url = ''http://example.com/a.csv'', Body = []\<rparr>,
                        dTweaks = [\<lparr>Call = ''gunzip'', Args = []\<rparr>],
                        dLoading = \<lparr>ProjectID = ''p'', DatasetID = ''d'', TableID = ''t''\<rparr>\<rparr>)
   \<and> handler (respond 200 ''a,b\<newline>1,2\<newline>'' offline)
         (Inr \<lparr>dPreExtraction = \<lparr>Method = [], Url = [], Body = [], Pattern = []\<rparr>,
               dExtraction = \<lparr>Method = ''GET'', Url = ''http://example.com/a.csv'', Body = []\<rparr>,
               dTweaks = [\<lparr>Call = ''gunzip'', Args = []\<rparr>],
               dLoading = \<lparr>ProjectID = ''p'', DatasetID = ''d'', TableID = ''t''\<rparr>\<rparr>)
       = (Returns 500, [HttpDo \<lparr>reqMethod = ''GET'', reqUrl = ''http://example.com/a.csv'',
                                reqForm = [], reqFormContentType = False\<rparr>])"
  using unsupported_call [of "\<lparr>Call = ''gunzip'', Args = []\<rparr>" offline
      "Source \<lparr>unread = ''a,b\<newline>'', fin = EOF\<rparr> False"
      "\<lparr>dPreExtraction = \<lparr>Method = [], Url = [], Body = [], Pattern = []\<rparr>,
        dExtraction = \<lparr>Method = ''GET'', Url = ''http://example.com/a.csv'', Body = []\<rparr>,
        dTweaks = [\<lparr>Call = ''gunzip'', Args = []\<rparr>],
        dLoading = \<lparr>ProjectID = ''p'', DatasetID = ''d'', TableID = ''t''\<rparr>\<rparr>"]
  by (simp add: handler_def preExtract_def request_def formRequest_def respond_def offline_def
      tweak_def)

text \<open>
  C8. When \<open>Method\<close> and \<open>Url\<close> of the pre-extraction are both empty, \<open>preExtract\<close> returns
  the extraction it was given and no error, and sends no request.
\<close>

theorem preExtract_noop:
  assumes "Method p = []" and "Url p = []"
  shows "preExtract w p e = (Returns (e, None), [])"
  using assms by (simp add: preExtract_def)

theorem preExtract_noop_witness:
  "preExtract offline \<lparr>Method = [], Url = [], Body = [(''k'', ''v'')], Pattern = ''(''\<rparr>
     \<lparr>Method = ''GET'', Url = ''http://example.com/data.csv'', Body = [(''token'', ''$1'')]\<rparr>
   = (Returns (\<lparr>Method = ''GET'', Url = ''http://example.com/data.csv'',
                Body = [(''token'', ''$1'')]\<rparr>, None), [])"
  by (rule preExtract_noop) simp_all

text \<open>
  C9. \<open>load\<close> names the columns of the load job by applying the replacement to every
  header name. The replacement goes through a name from left to right: a character
  (a valid UTF-8 encoding of a code point) that is a letter, a number, connector or dash
  punctuation, a mark, or one of \<open>& % = + : ' < > # |\<close> is left as it is, every other
  character becomes \<open>_\<close>; a byte that does not begin a valid encoding is treated as the
  character U+FFFD. So in a name of valid UTF-8 exactly the characters outside the set
  are replaced: "a-b" and "c#1" stay and "a b" becomes "a_b".
\<close>

theorem sanitize_characters:
  "ReplaceAllString w [] ''_'' = []
   \<and> (validRune r \<longrightarrow>
        ReplaceAllString w (EncodeRune r @ rest) ''_''
        = (if allowedCharacter w r then EncodeRune r else ''_'') @ ReplaceAllString w rest ''_'')
   \<and> (\<not> (\<exists>r' rest'. validRune r' \<and> b # rest = EncodeRune r' @ rest') \<longrightarrow>
        ReplaceAllString w (b # rest) ''_''
        = (if allowedCharacter w 0xFFFD then [b] else ''_'') @ ReplaceAllString w rest ''_'')
   \<and> (list_all validRune rs \<longrightarrow>
        ReplaceAllString w (concat (map EncodeRune rs)) ''_''
        = concat (map (\<lambda>r. if allowedCharacter w r then EncodeRune r else ''_'') rs))
   \<and> (csvHeader rd = Returns (Some header, br, None) \<and> NewClient w projectID = None \<longrightarrow>
        (\<exists>job. snd (load w projectID datasetID tableID rd) = [LoaderRun job]
               \<and> jobSchema job = map (\<lambda>v. ReplaceAllString w v ''_'') header))"
proof (intro conjI impI)
  show "ReplaceAllString w [] ''_'' = []" by (rule ReplaceAllString_Nil)
next
  assume "validRune r"
  then show "ReplaceAllString w (EncodeRune r @ rest) ''_''
        = (if allowedCharacter w r then EncodeRune r else ''_'') @ ReplaceAllString w rest ''_''"
    by (simp add: ReplaceAllString_rune invalidCharacters_iff)
next
  assume "\<not> (\<exists>r' rest'. validRune r' \<and> b # rest = EncodeRune r' @ rest')"
  then show "ReplaceAllString w (b # rest) ''_''
        = (if allowedCharacter w 0xFFFD then [b] else ''_'') @ ReplaceAllString w rest ''_''"
    by (simp add: ReplaceAllString_invalid_byte invalidCharacters_iff RuneError_def)
next
  assume "list_all validRune rs"
  then show "ReplaceAllString w (concat (map EncodeRune rs)) ''_''
        = concat (map (\<lambda>r. if allowedCharacter w r then EncodeRune r else ''_'') rs)"
    by (induction rs)
       (simp_all add: ReplaceAllString_Nil ReplaceAllString_rune invalidCharacters_iff)
next
  assume "csvHeader rd = Returns (Some header, br, None) \<and> NewClient w projectID = None"
  then show "\<exists>job. snd (load w projectID datasetID tableID rd) = [LoaderRun job]
               \<and> jobSchema job = map (\<lambda>v. ReplaceAllString w v ''_'') header"
    by (simp add: load_job)
qed

theorem sanitize_characters_witness:
  "list_all validRune [0x61, 0x20, 0x62]
   \<and> concat (map EncodeRune [0x61, 0x20, 0x62]) = ''a b''
   \<and> ReplaceAllString (warehouse offline) ''a b'' ''_'' = ''a_b''
   \<and> ReplaceAllString (warehouse offline) ''a-b'' ''_'' = ''a-b''
   \<and> ReplaceAllString (warehouse offline) ''c#1'' ''_'' = ''c#1''
   \<and> \<not> (\<exists>r' rest'. validRune r' \<and> CHR 0xFF # ''a'' = EncodeRune r' @ rest')
   \<and> ReplaceAllString (warehouse offline) (CHR 0xFF # ''a'') ''_'' = ''_a''
   \<and> load (warehouse offline) ''p'' ''d'' ''t''
        (Source \<lparr>unread = ''a b,c#1,a-b\<newline>1,2,3\<newline>'', fin = EOF\<rparr> False)
      = (Returns None,
         [LoaderRun \<lparr>jobProject = ''p'', jobDataset = ''d'', jobTable = ''t'',
                      jobSchema = [''a_b'', ''c#1'', ''a-b''],
                      jobSource = Some \<lparr>unread = ''1,2,3\<newline>'', fin = EOF\<rparr>,
                      jobAllowQuotedNewlines = True, jobWriteTruncate = True\<rparr>])"
proof -
  note th = sanitize_characters [where w = "warehouse offline" and b = "CHR 0xFF" and rest = "''a''"
      and rs = "[0x61, 0x20, 0x62]"]
  have v: "list_all validRune [0x61, 0x20, 0x62]" by (simp add: validRune_def)
  have enc: "EncodeRune 0x61 = ''a''" "EncodeRune 0x20 = '' ''" "EncodeRune 0x62 = ''b''"
    by code_simp+
  have e: "concat (map EncodeRune [0x61, 0x20, 0x62]) = ''a b''"
    by (simp add: enc)
  have i: "\<not> allowedCharacter (warehouse offline) 0x20" "allowedCharacter (warehouse offline) 0x61"
    "allowedCharacter (warehouse offline) 0x62" "\<not> allowedCharacter (warehouse offline) 0xFFFD"
    by (simp_all add: allowedCharacter_def warehouse_def offline_def)
  from th v
  have "ReplaceAllString (warehouse offline) (concat (map EncodeRune [0x61, 0x20, 0x62])) ''_''
        = concat (map (\<lambda>r. if allowedCharacter (warehouse offline) r then EncodeRune r else ''_'')
                    [0x61, 0x20, 0x62])"
    by blast
  then have a: "ReplaceAllString (warehouse offline) ''a b'' ''_'' = ''a_b''"
    unfolding e by (simp add: i enc)
  have b: "ReplaceAllString (warehouse offline) ''a-b'' ''_'' = ''a-b''"
    by code_simp
  have c: "ReplaceAllString (warehouse offline) ''c#1'' ''_'' = ''c#1''"
    by code_simp
  have n: "\<not> (\<exists>r' rest'. validRune r' \<and> CHR 0xFF # ''a'' = EncodeRune r' @ rest')"
  proof
    assume "\<exists>r' rest'. validRune r' \<and> CHR 0xFF # ''a'' = EncodeRune r' @ rest'"
    then obtain r' rest' where r: "validRune r'" "CHR 0xFF # ''a'' = EncodeRune r' @ rest'" by blast
    from decode_encode [OF r(1), of rest'] r(2)
    have "DecodeRuneInString (CHR 0xFF # ''a'') = (r', length (EncodeRune r'))" by simp
    moreover have "DecodeRuneInString (CHR 0xFF # ''a'') = (0xFFFD, 1)"
      by (simp add: DecodeRuneInString_def RuneError_def)
    ultimately have "r' = 0xFFFD" "length (EncodeRune r') = 1" by simp_all
    moreover have "length (EncodeRune 0xFFFD) = 3" by (simp add: EncodeRune_def)
    ultimately show False by simp
  qed
  from th n have "ReplaceAllString (warehouse offline) (CHR 0xFF # ''a'') ''_''
        = (if allowedCharacter (warehouse offline) 0xFFFD then [CHR 0xFF] else ''_'')
          @ ReplaceAllString (warehouse offline) ''a'' ''_''"
    by blast
  moreover have "ReplaceAllString (warehouse offline) ''a'' ''_'' = ''a''" by code_simp
  ultimately have f: "ReplaceAllString (warehouse offline) (CHR 0xFF # ''a'') ''_'' = ''_a''"
    by (simp add: i)
  have h: "csvHeader (Source \<lparr>unread = ''a b,c#1,a-b\<newline>1,2,3\<newline>'', fin = EOF\<rparr> False)
           = Returns (Some [''a b'', ''c#1'', ''a-b''], Some \<lparr>unread = ''1,2,3\<newline>'', fin = EOF\<rparr>, None)"
    by code_simp
  have w: "NewClient (warehouse offline) = (\<lambda>projectID. None)"
    "loaderRun (warehouse offline) = (\<lambda>job. None)"
    "jobWait (warehouse offline) = (\<lambda>job. None)"
    "statusErr (warehouse offline) = (\<lambda>job. None)"
    by (simp_all add: warehouse_def offline_def)
  have l: "load (warehouse offline) ''p'' ''d'' ''t''
        (Source \<lparr>unread = ''a b,c#1,a-b\<newline>1,2,3\<newline>'', fin = EOF\<rparr> False)
      = (Returns None,
         [LoaderRun \<lparr>jobProject = ''p'', jobDataset = ''d'', jobTable = ''t'',
                      jobSchema = [''a_b'', ''c#1'', ''a-b''],
                      jobSource = Some \<lparr>unread = ''1,2,3\<newline>'', fin = EOF\<rparr>,
                      jobAllowQuotedNewlines = True, jobWriteTruncate = True\<rparr>])"
    by (simp add: load_def h a b c w)
  from v e a b c n f l show ?thesis by simp
qed

text \<open>
  C10. On a stream of fewer than 3 bytes \<open>csvHeader\<close> returns the stream's error (\<open>io.EOF\<close>
  at a regular end) and neither header nor reader: \<open>Peek(3)\<close> fails before a record is
  parsed, also when the bytes are a complete record.
\<close>

theorem csvHeader_short_input:
  assumes "contents r = Returns br" and "length (unread br) < 3"
  shows "csvHeader r = Returns (None, None, Some (fin br))"
  using assms by (simp add: csvHeader_def Peek_def)

theorem csvHeader_short_input_witness:
  "contents (Source \<lparr>unread = ''a\<newline>'', fin = EOF\<rparr> False) = Returns \<lparr>unread = ''a\<newline>'', fin = EOF\<rparr>
   \<and> length (unread \<lparr>unread = ''a\<newline>'', fin = EOF\<rparr>) < 3
   \<and> csvRead \<lparr>unread = ''a\<newline>'', fin = EOF\<rparr> = (Some [''a''], None, \<lparr>unread = [], fin = EOF\<rparr>)
   \<and> csvHeader (Source \<lparr>unread = ''a\<newline>'', fin = EOF\<rparr> False) = Returns (None, None, Some EOF)"
proof -
  have c: "contents (Source \<lparr>unread = ''a\<newline>'', fin = EOF\<rparr> False) = Returns \<lparr>unread = ''a\<newline>'', fin = EOF\<rparr>"
    by simp
  have l: "length (unread \<lparr>unread = ''a\<newline>'', fin = EOF\<rparr>) < 3" by simp
  have p: "csvRead \<lparr>unread = ''a\<newline>'', fin = EOF\<rparr> = (Some [''a''], None, \<lparr>unread = [], fin = EOF\<rparr>)"
    by code_simp
  from csvHeader_short_input [OF c l] c l p show ?thesis by simp
qed

end
